theory Spec2Isabelle
  imports Main "HOL-Library.Sublist"
begin

section \<open>Data model of the document store\<close>

text \<open>
  The store (\<^verbatim>\<open>useDocumentStore\<close>) keeps a flat list of project files; the hierarchy is
  given by each file's \<^verbatim>\<open>parentId\<close>. Strings are lists of characters, and every offset
  into a document (cursor, selection, preview span) is a document position, a natural
  number. Record fields carry a prefix, since \<^verbatim>\<open>id\<close>, \<^verbatim>\<open>name\<close> and \<^verbatim>\<open>content\<close> are needed for
  more than one record: \<^verbatim>\<open>f_\<close> for \<^verbatim>\<open>ProjectFile\<close>, \<^verbatim>\<open>h_\<close> for \<^verbatim>\<open>DocumentHistoryEntry\<close>.
  An optional or nullable field is an \<open>option\<close> (\<open>None\<close> for \<^verbatim>\<open>undefined\<close> and \<^verbatim>\<open>null\<close>).
\<close>

datatype FileType = Tex | Image | Folder

record ProjectFile =
  f_id :: string
  f_name :: string
  f_type :: FileType
  f_parentId :: "string option"
  f_content :: "string option"
  f_dataUrl :: "string option"

record DocumentHistoryEntry =
  h_id :: string
  h_fileId :: string
  h_createdAt :: nat
  h_content :: string

text \<open>
  The fields of \<^verbatim>\<open>DocumentState\<close> that the file, buffer and history operations read or
  write. The compile and panel flags (\<^verbatim>\<open>pdfData\<close>, \<^verbatim>\<open>compileError\<close>, \<^verbatim>\<open>isCompiling\<close>,
  \<^verbatim>\<open>isThreadOpen\<close>, \<^verbatim>\<open>initialized\<close>, \<^verbatim>\<open>hydratedKey\<close>) are touched by none of them and are
  left out.

  The last field is what a read of \<^verbatim>\<open>state.content\<close> returns. The store declares
  \<^verbatim>\<open>content\<close> as an accessor (\<^verbatim>\<open>get content()\<close>), but the state object it holds is a copy of
  the declared one: the \<^verbatim>\<open>merge\<close> of the persist options spreads it
  (\<^verbatim>\<open>{ ...current, ...persisted }\<close>) and every \<^verbatim>\<open>set\<close> copies it, and a copy carries the value
  the accessor had at that moment as a plain property. No operation writes that property,
  so \<^verbatim>\<open>getState().content\<close> and the selector \<^verbatim>\<open>(s) => s.content\<close> give the text of the
  default document as it was when the store was created, whatever the active file holds
  now.
\<close>

record DocumentState =
  files :: "ProjectFile list"
  activeFileId :: string
  cursorPosition :: nat
  viewLineNumber :: nat
  selectionRange :: "(nat \<times> nat) option"
  jumpToPosition :: "nat option"
  isSaving :: bool
  hasUnsavedChanges :: bool
  lastSavedAt :: "nat option"
  historyEntries :: "DocumentHistoryEntry list"
  contentProperty :: string

text \<open>\<^verbatim>\<open>getActiveFile\<close>: the file named by \<^verbatim>\<open>activeFileId\<close> unless it is missing or a folder,
  then the first file that is not a folder.\<close>

definition getActiveFile :: "DocumentState \<Rightarrow> ProjectFile option" where
  "getActiveFile state =
     (case find (\<lambda>f. f_id f = activeFileId state) (files state) of
        Some active \<Rightarrow>
          if f_type active \<noteq> Folder then Some active
          else find (\<lambda>f. f_type f \<noteq> Folder) (files state)
      | None \<Rightarrow> find (\<lambda>f. f_type f \<noteq> Folder) (files state))"

text \<open>
  The text of the active file, \<^verbatim>\<open>activeFile?.content ?? ""\<close>: what the body of the accessor
  \<^verbatim>\<open>content\<close> computes, and what the store operations read from the active file itself.
  It is the buffer; a read of \<^verbatim>\<open>state.content\<close> is the field \<open>contentProperty\<close> instead.
\<close>

definition content :: "DocumentState \<Rightarrow> string" where
  "content state =
     (case getActiveFile state of
        None \<Rightarrow> []
      | Some activeFile \<Rightarrow> (case f_content activeFile of None \<Rightarrow> [] | Some c \<Rightarrow> c))"

text \<open>
  \<^verbatim>\<open>DEFAULT_TEX_CONTENT\<close>, the template document of 2480 characters that the default
  state holds. Its one character outside ASCII, the key sign U+2318 at index 2284, is
  written as a question mark here.
\<close>

definition default_tex :: string where
  "default_tex =
     CHR 0x5C # ''documentclass[11pt]{article}'' @ CHR 0x0A #
     CHR 0x5C # ''usepackage[margin=1in]{geometry}'' @ CHR 0x0A #
     CHR 0x5C # ''usepackage{amsmath}'' @ CHR 0x0A #
     CHR 0x5C # ''usepackage{graphicx}'' @ CHR 0x0A #
     CHR 0x5C # ''usepackage{tikz-cd}'' @ CHR 0x0A #
     CHR 0x5C # ''usepackage{multicol}'' @ CHR 0x0A #
     CHR 0x0A #
     CHR 0x5C # ''setlength{'' @ CHR 0x5C # ''parindent}{0pt}'' @ CHR 0x0A #
     CHR 0x5C # ''setlength{'' @ CHR 0x5C # ''parskip}{1'' @ CHR 0x5C # ''baselineskip}'' @
       CHR 0x0A #
     CHR 0x0A #
     CHR 0x5C # ''begin{document}'' @ CHR 0x0A #
     CHR 0x0A #
     CHR 0x5C # ''section*{What is Open-Prism?}'' @ CHR 0x0A #
     CHR 0x0A #
     CHR 0x5C # ''textbf{Open-Prism} is an AI-powered '' @ CHR 0x5C #
       ''LaTeX{} editor for writing scientific documents. It features built-in '' @
       ''AI assistance to help you draft and edit text, reason through ideas, '' @
       ''and handle formatting.'' @ CHR 0x0A #
     CHR 0x0A #
     CHR 0x5C # ''section*{Features}'' @ CHR 0x0A #
     CHR 0x0A #
     CHR 0x5C # ''begin{multicols}{2}'' @ CHR 0x0A #
     ''Open-Prism integrates AI directly in the editor with access to your '' @
       ''project, so you can ask it to:'' @ CHR 0x0A #
     CHR 0x0A #
     CHR 0x60 # CHR 0x60 # ''Add the Laplace transform of $t'' @ CHR 0x5C #
       ''cos(at)$ in the introduction.'' @ CHR 0x27 # CHR 0x27 # CHR 0x0A #
     CHR 0x5C # ''['' @ CHR 0x0A #
     ''  '' @ CHR 0x5C # ''mathcal{L}'' @ CHR 0x5C # ''left'' @ CHR 0x5C # ''{ t '' @ CHR 0x5C #
       ''cos(a t) '' @ CHR 0x5C # ''right'' @ CHR 0x5C # ''} = '' @ CHR 0x5C #
       ''frac{ s^2 - a^2 }{ (s^2 + a^2)^2 }'' @ CHR 0x0A #
     CHR 0x5C # '']'' @ CHR 0x0A #
     CHR 0x0A #
     CHR 0x60 # CHR 0x60 # ''Add a 4'' @ CHR 0x5C # '',$'' @ CHR 0x5C # ''times$'' @ CHR 0x5C #
       '',4 table in the results section.'' @ CHR 0x27 # CHR 0x27 # CHR 0x0A #
     CHR 0x5C # ''begin{center}'' @ CHR 0x0A #
     CHR 0x5C # ''resizebox{0.5'' @ CHR 0x5C # ''linewidth}{!}{%'' @ CHR 0x0A #
     CHR 0x5C # ''begin{tabular}{|c|c|c|c|}'' @ CHR 0x0A #
     ''  '' @ CHR 0x5C # ''hline'' @ CHR 0x0A #
     ''  1 & 2 & 3 & 4 '' @ CHR 0x5C # CHR 0x5C # CHR 0x0A #
     ''  '' @ CHR 0x5C # ''hline'' @ CHR 0x0A #
     ''  5 & 6 & 7 & 8 '' @ CHR 0x5C # CHR 0x5C # CHR 0x0A #
     ''  '' @ CHR 0x5C # ''hline'' @ CHR 0x0A #
     ''  9 & 10 & 11 & 12 '' @ CHR 0x5C # CHR 0x5C # CHR 0x0A #
     ''  '' @ CHR 0x5C # ''hline'' @ CHR 0x0A #
     ''  13 & 14 & 15 & 16 '' @ CHR 0x5C # CHR 0x5C # CHR 0x0A #
     ''  '' @ CHR 0x5C # ''hline'' @ CHR 0x0A #
     CHR 0x5C # ''end{tabular}%'' @ CHR 0x0A #
     ''}'' @ CHR 0x0A #
     CHR 0x5C # ''end{center}'' @ CHR 0x0A #
     CHR 0x0A #
     CHR 0x60 # CHR 0x60 #
       ''Please proofread this section, flag any errors or logical gaps, and '' @
       ''suggest improvements for clarity.'' @ CHR 0x27 # CHR 0x27 # CHR 0x0A #
     CHR 0x0A #
     CHR 0x60 # CHR 0x60 #
       ''Am I missing corollaries or implications of Theorem 3.1? Are all bounds '' @
       ''tight, or can some be relaxed?'' @ CHR 0x27 # CHR 0x27 # CHR 0x0A #
     CHR 0x0A #
     CHR 0x5C # ''columnbreak'' @ CHR 0x0A #
     CHR 0x0A #
     CHR 0x60 # CHR 0x60 # ''Write an abstract based on the rest of the paper.'' @ CHR 0x27 #
       CHR 0x27 # CHR 0x0A #
     CHR 0x0A #
     CHR 0x60 # CHR 0x60 #
       ''Add references to my paper and suggest related work I may have missed.'' @ CHR 0x27 #
       CHR 0x27 # CHR 0x0A #
     CHR 0x0A #
     CHR 0x60 # CHR 0x60 # ''Convert this hand-drawn diagram to '' @ CHR 0x5C # ''LaTeX{}.'' @
       CHR 0x27 # CHR 0x27 # CHR 0x0A #
     CHR 0x5C # ''par'' @ CHR 0x5C # ''noindent'' @ CHR 0x0A #
     CHR 0x5C # ''begin{minipage}[t]{0.49'' @ CHR 0x5C # ''linewidth}'' @ CHR 0x0A #
     ''  '' @ CHR 0x5C # ''vspace{0pt}'' @ CHR 0x0A #
     ''  '' @ CHR 0x5C # ''centering'' @ CHR 0x0A #
     ''  '' @ CHR 0x5C # ''includegraphics[width='' @ CHR 0x5C # ''linewidth]{hand-write.jpg}'' @
       CHR 0x0A #
     CHR 0x5C # ''end{minipage}'' @ CHR 0x5C # ''hfill'' @ CHR 0x0A #
     CHR 0x5C # ''begin{minipage}[t]{0.49'' @ CHR 0x5C # ''linewidth}'' @ CHR 0x0A #
     ''  '' @ CHR 0x5C # ''vspace{0pt}'' @ CHR 0x0A #
     ''  '' @ CHR 0x5C # ''centering'' @ CHR 0x0A #
     ''  '' @ CHR 0x5C # ''resizebox{'' @ CHR 0x5C # ''linewidth}{!}{$'' @ CHR 0x0A #
     ''    '' @ CHR 0x5C #
       ''begin{tikzcd}[row sep=2em, column sep=1.5em, ampersand replacement='' @ CHR 0x5C #
       ''&]'' @ CHR 0x0A #
     ''      E'' @ CHR 0x0A #
     ''        '' @ CHR 0x5C # ''arrow[dr, '' @ CHR 0x22 # ''e'' @ CHR 0x22 # CHR 0x27 # '']'' @
       CHR 0x0A #
     ''        '' @ CHR 0x5C # ''arrow[drr, '' @ CHR 0x22 # ''p_2'' @ CHR 0x22 # '']'' @
       CHR 0x0A #
     ''        '' @ CHR 0x5C # ''arrow[ddr, '' @ CHR 0x22 # ''p_1'' @ CHR 0x22 # CHR 0x27 #
       '']'' @ CHR 0x0A #
     ''      '' @ CHR 0x5C # ''& '' @ CHR 0x5C # ''& '' @ CHR 0x5C # CHR 0x5C # CHR 0x0A #
     ''      '' @ CHR 0x5C # ''& A '' @ CHR 0x5C # ''times B '' @ CHR 0x5C # ''arrow[r, '' @
       CHR 0x22 # CHR 0x5C # ''pi_2'' @ CHR 0x22 # CHR 0x27 # ''] '' @ CHR 0x5C # ''arrow[d, '' @
       CHR 0x22 # CHR 0x5C # ''pi_1'' @ CHR 0x22 # ''] '' @ CHR 0x5C # ''& B '' @ CHR 0x5C #
       ''arrow[d, '' @ CHR 0x22 # ''g'' @ CHR 0x22 # ''] '' @ CHR 0x5C # CHR 0x5C # CHR 0x0A #
     ''      '' @ CHR 0x5C # ''& A '' @ CHR 0x5C # ''arrow[r, '' @ CHR 0x22 # ''f'' @ CHR 0x22 #
       CHR 0x27 # ''] '' @ CHR 0x5C # ''& C'' @ CHR 0x0A #
     ''    '' @ CHR 0x5C # ''end{tikzcd}'' @ CHR 0x0A #
     ''  $}'' @ CHR 0x0A #
     CHR 0x5C # ''end{minipage}'' @ CHR 0x0A #
     CHR 0x5C # ''par'' @ CHR 0x0A #
     CHR 0x0A #
     CHR 0x60 # CHR 0x60 # ''Fill in all missing dependencies in my project.'' @ CHR 0x27 #
       CHR 0x27 # CHR 0x0A #
     CHR 0x0A #
     CHR 0x60 # CHR 0x60 # ''Generate a 200-word summary for a general audience.'' @ CHR 0x27 #
       CHR 0x27 # CHR 0x0A #
     CHR 0x0A #
     CHR 0x60 # CHR 0x60 # ''Create a Beamer presentation with each slide in a separate file.'' @
       CHR 0x27 # CHR 0x27 # CHR 0x0A #
     CHR 0x5C # ''end{multicols}'' @ CHR 0x0A #
     CHR 0x0A #
     CHR 0x5C # ''section*{Getting Started}'' @ CHR 0x0A #
     CHR 0x0A #
     ''Press '' @ CHR 0x5C # ''textbf{Ctrl/'' @ CHR 0x3F #
       '' + Enter} to compile your document. Press '' @ CHR 0x5C #
       ''textbf{Enter} for a new line. The AI assistant panel at the bottom of '' @
       ''the editor is ready to help with any '' @ CHR 0x5C # ''LaTeX{} questions or tasks.'' @
       CHR 0x0A #
     CHR 0x0A #
     CHR 0x5C # ''end{document}'' @ CHR 0x0A # []"

section \<open>File tree operations\<close>

text \<open>
  \<^verbatim>\<open>generateId()\<close> draws a random identifier: the drawn value is an argument
  (\<open>newId\<close>) of the operations that call it.
\<close>

text \<open>\<^verbatim>\<open>addFile\<close>: appends the file under the drawn id, with the parent the caller gave,
  and makes it the active file.\<close>

definition addFile :: "string \<Rightarrow> ProjectFile \<Rightarrow> DocumentState \<Rightarrow> string \<times> DocumentState" where
  "addFile newId file state =
     (newId, state\<lparr>files := files state @ [file\<lparr>f_id := newId\<rparr>], activeFileId := newId\<rparr>)"

text \<open>JavaScript's \<^verbatim>\<open>\s\<close> and \<^verbatim>\<open>trim\<close> whitespace, on the 8-bit characters of the model: tab,
  line feed, vertical tab, form feed, carriage return, space and no-break space.\<close>

definition is_space :: "char \<Rightarrow> bool" where
  "is_space c = (of_char c \<in> {9, 10, 11, 12, 13, 32, 160 :: nat})"

definition trim :: "string \<Rightarrow> string" where
  "trim s = rev (dropWhile is_space (rev (dropWhile is_space s)))"

text \<open>Stands for the source's default folder name (a Chinese literal, "new folder").\<close>

definition defaultFolderName :: string where
  "defaultFolderName = ''New Folder''"

definition addFolder ::
  "string \<Rightarrow> string \<Rightarrow> string option \<Rightarrow> DocumentState \<Rightarrow> string \<times> DocumentState" where
  "addFolder newId name parentId state =
     (newId,
      state\<lparr>files := files state @
        [\<lparr>f_id = newId,
          f_name = (if trim name \<noteq> [] then trim name else defaultFolderName),
          f_type = Folder, f_parentId = parentId, f_content = None, f_dataUrl = None\<rparr>]\<rparr>)"

text \<open>
  \<^verbatim>\<open>moveFile\<close>: ignored when the id is unknown or names a folder; the parent check is
  under \<^verbatim>\<open>if (nextParentId)\<close>, which the empty string does not pass; then every file with
  the id gets the new parent.
\<close>

definition moveFile :: "string \<Rightarrow> string option \<Rightarrow> DocumentState \<Rightarrow> DocumentState" where
  "moveFile i parentId state =
     (case find (\<lambda>f. f_id f = i) (files state) of
        None \<Rightarrow> state
      | Some target \<Rightarrow>
          if f_type target = Folder then state
          else if (case parentId of
                     None \<Rightarrow> False
                   | Some nextParentId \<Rightarrow>
                       nextParentId \<noteq> [] \<and>
                       (case find (\<lambda>f. f_id f = nextParentId) (files state) of
                          None \<Rightarrow> True
                        | Some parent \<Rightarrow> f_type parent \<noteq> Folder))
          then state
          else state\<lparr>files :=
                 map (\<lambda>f. if f_id f = i then f\<lparr>f_parentId := parentId\<rparr> else f) (files state)\<rparr>)"

text \<open>
  \<^verbatim>\<open>deleteFile\<close> collects the ids to delete in a \<^verbatim>\<open>Set\<close>. Its helper
  \<^verbatim>\<open>collectFolderChildren(folderId)\<close> loops over all files and calls itself on each child
  folder it adds. The third argument is what is left of the loop \<^verbatim>\<open>for (const item of
  state.files)\<close>; the set is passed in and returned. The recursion is nested (the loop goes
  on with the set the inner call returns), so termination needs that a call only adds
  ids: each inner call starts from a set that has gained an id of a file.
\<close>

function collectFolderChildren ::
  "ProjectFile list \<Rightarrow> string \<Rightarrow> ProjectFile list \<Rightarrow> string set \<Rightarrow> string set" where
  "collectFolderChildren fs folderId [] idsToDelete = idsToDelete"
| "collectFolderChildren fs folderId (item # rest) idsToDelete =
     (if f_parentId item \<noteq> Some folderId then collectFolderChildren fs folderId rest idsToDelete
      else if f_id item \<in> idsToDelete then collectFolderChildren fs folderId rest idsToDelete
      else if f_type item = Folder
        then collectFolderChildren fs folderId rest
               (collectFolderChildren fs (f_id item) fs (insert (f_id item) idsToDelete))
        else collectFolderChildren fs folderId rest (insert (f_id item) idsToDelete))"
  by pat_completeness auto

lemma collect_dom_mono:
  "collectFolderChildren_dom (fs, folderId, items, ids) \<Longrightarrow>
   ids \<subseteq> collectFolderChildren fs folderId items ids"
proof (induction fs folderId items ids rule: collectFolderChildren.pinduct)
  case (1 fs folderId idsToDelete)
  then show ?case by (simp add: collectFolderChildren.psimps)
next
  case (2 fs folderId item rest idsToDelete)
  then show ?case
    by (simp add: collectFolderChildren.psimps) blast
qed

termination collectFolderChildren
proof (relation "measures
    [\<lambda>(fs, folderId, items, ids). card (f_id ` (set fs \<union> set items) - ids),
     \<lambda>(fs, folderId, items, ids). length items]", goal_cases)
  case 1
  then show ?case by simp
next
  case (2 fs folderId item rest ids)
  have "card (f_id ` (set fs \<union> set rest) - ids) \<le> card (f_id ` (set fs \<union> set (item # rest)) - ids)"
    by (rule card_mono) auto
  then show ?case by auto
next
  case (3 fs folderId item rest ids)
  have "card (f_id ` (set fs \<union> set rest) - ids) \<le> card (f_id ` (set fs \<union> set (item # rest)) - ids)"
    by (rule card_mono) auto
  then show ?case by auto
next
  case (4 fs folderId item rest ids)
  have "f_id ` (set fs \<union> set fs) - insert (f_id item) ids
        \<subset> f_id ` (set fs \<union> set (item # rest)) - ids"
    using 4 by auto
  then have "card (f_id ` (set fs \<union> set fs) - insert (f_id item) ids)
        < card (f_id ` (set fs \<union> set (item # rest)) - ids)"
    by (intro psubset_card_mono) auto
  then show ?case by simp
next
  case (5 fs folderId item rest ids)
  have "insert (f_id item) ids
      \<subseteq> collectFolderChildren fs (f_id item) fs (insert (f_id item) ids)"
    using 5 by (intro collect_dom_mono) 
  then have "card (f_id ` (set fs \<union> set rest) -
        collectFolderChildren fs (f_id item) fs (insert (f_id item) ids))
     \<le> card (f_id ` (set fs \<union> set (item # rest)) - ids)"
    by (intro card_mono) auto
  then show ?case by auto
next
  case (6 fs folderId item rest ids)
  have "card (f_id ` (set fs \<union> set rest) - insert (f_id item) ids)
     \<le> card (f_id ` (set fs \<union> set (item # rest)) - ids)"
    by (intro card_mono) auto
  then show ?case by auto
qed

text \<open>The set \<^verbatim>\<open>idsToDelete\<close> of \<^verbatim>\<open>deleteFile\<close>: the id, and for a folder what
  \<^verbatim>\<open>collectFolderChildren(id)\<close> adds.\<close>

definition idsToDelete :: "ProjectFile list \<Rightarrow> string \<Rightarrow> ProjectFile \<Rightarrow> string set" where
  "idsToDelete fs i target =
     (if f_type target = Folder then collectFolderChildren fs i fs {i} else {i})"

definition deleteFile :: "string \<Rightarrow> DocumentState \<Rightarrow> DocumentState" where
  "deleteFile i state =
     (case find (\<lambda>f. f_id f = i) (files state) of
        None \<Rightarrow> state
      | Some target \<Rightarrow>
          let ids = idsToDelete (files state) i target;
              nextFiles = filter (\<lambda>f. f_id f \<notin> ids) (files state);
              remainingNonFolder = filter (\<lambda>f. f_type f \<noteq> Folder) nextFiles
          in if remainingNonFolder = [] then state
             else state\<lparr>files := nextFiles,
                    activeFileId :=
                      (if activeFileId state \<in> ids then f_id (hd remainingNonFolder)
                       else activeFileId state)\<rparr>)"

section \<open>The hierarchy as a relation\<close>

text \<open>
  The parent graph of a file list: an edge from a file's id to its \<^verbatim>\<open>parentId\<close>. The ids of
  the subtree at \<open>i\<close> are \<open>i\<close> and the ids from which parent edges lead to \<open>i\<close>, that is, the
  node and its transitive descendants. A tree is valid when ids are unique, every non-null
  \<^verbatim>\<open>parentId\<close> is the id of an existing folder, and no node is its own ancestor.
\<close>

definition parent_edges :: "ProjectFile list \<Rightarrow> (string \<times> string) set" where
  "parent_edges fs = {(f_id f, p) | f p. f \<in> set fs \<and> f_parentId f = Some p}"

definition subtree_ids :: "ProjectFile list \<Rightarrow> string \<Rightarrow> string set" where
  "subtree_ids fs i = {x. (x, i) \<in> (parent_edges fs)\<^sup>*}"

definition parents_are_folders :: "ProjectFile list \<Rightarrow> bool" where
  "parents_are_folders fs =
     (\<forall>f \<in> set fs. \<forall>p. f_parentId f = Some p \<longrightarrow>
        (\<exists>g \<in> set fs. f_id g = p \<and> f_type g = Folder))"

text \<open>All children of \<open>x\<close> are in \<open>D\<close>.\<close>

definition children_in :: "ProjectFile list \<Rightarrow> string \<Rightarrow> string set \<Rightarrow> bool" where
  "children_in fs x D = (\<forall>n \<in> set fs. f_parentId n = Some x \<longrightarrow> f_id n \<in> D)"

text \<open>Every node of the subtree at \<open>i\<close> that has a child is a folder.\<close>

definition folders_hold_children :: "ProjectFile list \<Rightarrow> string \<Rightarrow> bool" where
  "folders_hold_children fs i =
     (\<forall>g \<in> set fs. \<forall>f \<in> set fs.
        f_id g \<in> subtree_ids fs i \<and> f_parentId f = Some (f_id g) \<longrightarrow> f_type g = Folder)"

definition valid_tree :: "ProjectFile list \<Rightarrow> bool" where
  "valid_tree fs =
     (distinct (map f_id fs) \<and> parents_are_folders fs \<and> acyclic (parent_edges fs))"

text \<open>A tree for examples: folder \<open>d\<close> holds \<open>a.tex\<close> and folder \<open>e\<close>, which holds \<open>b.png\<close>;
  \<open>c.tex\<close> is at the root.\<close>

definition example_tree :: DocumentState where
  "example_tree =
     \<lparr>files =
        [\<lparr>f_id = ''d'', f_name = ''d'', f_type = Folder, f_parentId = None,
           f_content = None, f_dataUrl = None\<rparr>,
         \<lparr>f_id = ''a'', f_name = ''a.tex'', f_type = Tex, f_parentId = Some ''d'',
           f_content = Some ''text of a'', f_dataUrl = None\<rparr>,
         \<lparr>f_id = ''e'', f_name = ''e'', f_type = Folder, f_parentId = Some ''d'',
           f_content = None, f_dataUrl = None\<rparr>,
         \<lparr>f_id = ''b'', f_name = ''b.png'', f_type = Image, f_parentId = Some ''e'',
           f_content = None, f_dataUrl = Some ''data''\<rparr>,
         \<lparr>f_id = ''c'', f_name = ''c.tex'', f_type = Tex, f_parentId = None,
           f_content = Some ''text of c'', f_dataUrl = None\<rparr>],
      activeFileId = ''a'', cursorPosition = 0, viewLineNumber = 1,
      selectionRange = None, jumpToPosition = None, isSaving = False,
      hasUnsavedChanges = False, lastSavedAt = None, historyEntries = [],
      contentProperty = default_tex\<rparr>"

text \<open>A file list in which a file that is not a folder has a child: folder \<open>d\<close> holds
  \<open>a.tex\<close>, and \<open>b.tex\<close> has \<open>a\<close> as its parent; \<open>c.tex\<close> is at the root. \<^verbatim>\<open>addFile\<close> builds such
  a list, as it stores the parent it is given.\<close>

definition nested_tree :: DocumentState where
  "nested_tree =
     \<lparr>files =
        [\<lparr>f_id = ''d'', f_name = ''d'', f_type = Folder, f_parentId = None,
           f_content = None, f_dataUrl = None\<rparr>,
         \<lparr>f_id = ''a'', f_name = ''a.tex'', f_type = Tex, f_parentId = Some ''d'',
           f_content = Some ''text of a'', f_dataUrl = None\<rparr>,
         \<lparr>f_id = ''b'', f_name = ''b.tex'', f_type = Tex, f_parentId = Some ''a'',
           f_content = Some ''text of b'', f_dataUrl = None\<rparr>,
         \<lparr>f_id = ''c'', f_name = ''c.tex'', f_type = Tex, f_parentId = None,
           f_content = Some ''text of c'', f_dataUrl = None\<rparr>],
      activeFileId = ''a'', cursorPosition = 0, viewLineNumber = 1,
      selectionRange = None, jumpToPosition = None, isSaving = False,
      hasUnsavedChanges = False, lastSavedAt = None, historyEntries = [],
      contentProperty = default_tex\<rparr>"

section \<open>History snapshots\<close>

text \<open>\<^verbatim>\<open>saveHistoryEntry\<close>; \<open>newId\<close> is the drawn id and \<open>now\<close> the value of \<^verbatim>\<open>Date.now()\<close>.
  \<^verbatim>\<open>slice(0, 50)\<close> keeps the first fifty entries.\<close>

definition saveHistoryEntry ::
  "string \<Rightarrow> nat \<Rightarrow> DocumentState \<Rightarrow> string option \<times> DocumentState" where
  "saveHistoryEntry newId now state =
     (case getActiveFile state of
        None \<Rightarrow> (None, state)
      | Some activeFile \<Rightarrow>
          if f_type activeFile \<noteq> Tex then (None, state)
          else
            (Some newId,
             state\<lparr>historyEntries :=
               take 50
                 (\<lparr>h_id = newId, h_fileId = f_id activeFile, h_createdAt = now,
                    h_content = (case f_content activeFile of None \<Rightarrow> [] | Some c \<Rightarrow> c)\<rparr>
                  # historyEntries state)\<rparr>))"

text \<open>A run of \<^verbatim>\<open>saveHistoryEntry\<close> calls, one per pair of drawn id and clock value.\<close>

fun saveHistoryEntries :: "(string \<times> nat) list \<Rightarrow> DocumentState \<Rightarrow> DocumentState" where
  "saveHistoryEntries [] state = state"
| "saveHistoryEntries ((newId, now) # calls) state =
     saveHistoryEntries calls (snd (saveHistoryEntry newId now state))"

text \<open>The state of \<^verbatim>\<open>createDefaultDocumentState\<close>, with the text of the default document
  as a parameter; the \<^verbatim>\<open>content\<close> property holds that text.\<close>

definition createDefaultDocumentState :: "string \<Rightarrow> DocumentState" where
  "createDefaultDocumentState defaultTex =
     \<lparr>files = [\<lparr>f_id = ''default-tex'', f_name = ''document.tex'', f_type = Tex,
                 f_parentId = None, f_content = Some defaultTex, f_dataUrl = None\<rparr>],
      activeFileId = ''default-tex'', cursorPosition = 0, viewLineNumber = 1,
      selectionRange = None, jumpToPosition = None, isSaving = False,
      hasUnsavedChanges = False, lastSavedAt = None, historyEntries = [],
      contentProperty = defaultTex\<rparr>"

section \<open>Sequences of tree operations\<close>

text \<open>An add or move operation of the store as a value; the first argument of an add is
  the id \<^verbatim>\<open>generateId()\<close> draws.\<close>


datatype TreeOp =
    AddFile string ProjectFile
  | AddFolder string string "string option"
  | MoveFile string "string option"

fun applyTreeOp :: "TreeOp \<Rightarrow> DocumentState \<Rightarrow> DocumentState" where
  "applyTreeOp (AddFile newId file) state = snd (addFile newId file state)"
| "applyTreeOp (AddFolder newId name parentId) state = snd (addFolder newId name parentId state)"
| "applyTreeOp (MoveFile i parentId) state = moveFile i parentId state"

fun applyTreeOps :: "TreeOp list \<Rightarrow> DocumentState \<Rightarrow> DocumentState" where
  "applyTreeOps [] state = state"
| "applyTreeOps (op # ops) state = applyTreeOps ops (applyTreeOp op state)"

text \<open>
  What the add operations do not check and \<^verbatim>\<open>moveFile\<close> does: that the parent is null
  or the id of an existing folder. A checked operation is an add whose drawn id is not in
  use and whose parent is null or an existing folder, or any move whose parent is not the
  empty string (which \<^verbatim>\<open>if (nextParentId)\<close> lets through unchecked).
\<close>

definition folder_or_root :: "ProjectFile list \<Rightarrow> string option \<Rightarrow> bool" where
  "folder_or_root fs parentId =
     (case parentId of
        None \<Rightarrow> True
      | Some p \<Rightarrow> \<exists>g \<in> set fs. f_id g = p \<and> f_type g = Folder)"

fun op_checked :: "ProjectFile list \<Rightarrow> TreeOp \<Rightarrow> bool" where
  "op_checked fs (AddFile newId file) =
     (newId \<notin> f_id ` set fs \<and> folder_or_root fs (f_parentId file))"
| "op_checked fs (AddFolder newId name parentId) =
     (newId \<notin> f_id ` set fs \<and> folder_or_root fs parentId)"
| "op_checked fs (MoveFile i parentId) = (parentId \<noteq> Some [])"

fun ops_checked :: "TreeOp list \<Rightarrow> DocumentState \<Rightarrow> bool" where
  "ops_checked [] state = True"
| "ops_checked (op # ops) state =
     (op_checked (files state) op \<and> ops_checked ops (applyTreeOp op state))"

text \<open>A file for \<^verbatim>\<open>addFile\<close> (which takes a file without an id: the id field is
  overwritten).\<close>

definition texFile :: "string \<Rightarrow> string option \<Rightarrow> string \<Rightarrow> ProjectFile" where
  "texFile name parentId text =
     \<lparr>f_id = [], f_name = name, f_type = Tex, f_parentId = parentId,
      f_content = Some text, f_dataUrl = None\<rparr>"

section \<open>Buffer primitives\<close>

text \<open>
  \<^verbatim>\<open>s.slice(a, b)\<close> and \<^verbatim>\<open>s.slice(a)\<close> on positions: the characters from \<open>a\<close> up to \<open>b\<close>
  (none when \<open>b \<le> a\<close>), both clamped to the length, which \<open>take\<close> and \<open>drop\<close> do.
  \<open>withContent\<close> is the \<^verbatim>\<open>files.map\<close> that the buffer operations share: every file with the
  active file's id gets the new content. \<open>contentOf\<close> is \<^verbatim>\<open>activeFile.content ?? ""\<close>.
\<close>

definition js_slice :: "string \<Rightarrow> nat \<Rightarrow> nat \<Rightarrow> string" where
  "js_slice s a b = take (b - a) (drop a s)"

definition js_slice_from :: "string \<Rightarrow> nat \<Rightarrow> string" where
  "js_slice_from s a = drop a s"

definition withContent :: "string \<Rightarrow> string \<Rightarrow> ProjectFile list \<Rightarrow> ProjectFile list" where
  "withContent fileId newContent fs =
     map (\<lambda>f. if f_id f = fileId then f\<lparr>f_content := Some newContent\<rparr> else f) fs"

definition contentOf :: "ProjectFile \<Rightarrow> string" where
  "contentOf activeFile = (case f_content activeFile of None \<Rightarrow> [] | Some c \<Rightarrow> c)"

text \<open>\<^verbatim>\<open>insertAtCursor\<close> and \<^verbatim>\<open>replaceSelection\<close>: no-ops unless the active file is a
  \<^verbatim>\<open>tex\<close> file; they write \<^verbatim>\<open>files\<close> and \<^verbatim>\<open>cursorPosition\<close> and nothing else.\<close>

definition insertAtCursor :: "string \<Rightarrow> DocumentState \<Rightarrow> DocumentState" where
  "insertAtCursor text state =
     (case getActiveFile state of
        None \<Rightarrow> state
      | Some activeFile \<Rightarrow>
          if f_type activeFile \<noteq> Tex then state
          else
            let newContent =
                  js_slice (contentOf activeFile) 0 (cursorPosition state) @ text @
                  js_slice_from (contentOf activeFile) (cursorPosition state)
            in state\<lparr>files := withContent (f_id activeFile) newContent (files state),
                     cursorPosition := cursorPosition state + length text\<rparr>)"

definition replaceSelection :: "nat \<Rightarrow> nat \<Rightarrow> string \<Rightarrow> DocumentState \<Rightarrow> DocumentState" where
  "replaceSelection start end text state =
     (case getActiveFile state of
        None \<Rightarrow> state
      | Some activeFile \<Rightarrow>
          if f_type activeFile \<noteq> Tex then state
          else
            let newContent =
                  js_slice (contentOf activeFile) 0 start @ text @
                  js_slice_from (contentOf activeFile) end
            in state\<lparr>files := withContent (f_id activeFile) newContent (files state),
                     cursorPosition := start + length text\<rparr>)"

section \<open>Find and replace\<close>

text \<open>
  The string builtins \<^verbatim>\<open>findAndReplace\<close> calls. \<^verbatim>\<open>s.indexOf(needle)\<close> is the first position
  where the needle is a prefix of the rest (\<open>None\<close> for \<^verbatim>\<open>-1\<close>); \<^verbatim>\<open>s.includes(needle)\<close> holds
  when there is one. \<^verbatim>\<open>s.replace(pattern, replacement)\<close> with two strings replaces the first
  occurrence by the expansion of the replacement, in which \<^verbatim>\<open>$$\<close> stands for a dollar sign,
  \<^verbatim>\<open>$&\<close> for the matched text, and a dollar sign followed by a backquote or a quote for the
  text before or after the match (\<^verbatim>\<open>GetSubstitution\<close> of ECMAScript; a string pattern has
  no capture groups, so \<^verbatim>\<open>$1\<close> and the like stay as they are).
\<close>

fun indexOf :: "string \<Rightarrow> string \<Rightarrow> nat option" where
  "indexOf [] needle = (if needle = [] then Some 0 else None)"
| "indexOf (c # cs) needle =
     (if prefix needle (c # cs) then Some 0 else map_option Suc (indexOf cs needle))"

definition js_includes :: "string \<Rightarrow> string \<Rightarrow> bool" where
  "js_includes s needle = (indexOf s needle \<noteq> None)"

fun getSubstitution :: "string \<Rightarrow> string \<Rightarrow> string \<Rightarrow> string \<Rightarrow> string" where
  "getSubstitution matched pre post [] = []"
| "getSubstitution matched pre post [c] = [c]"
| "getSubstitution matched pre post (c # d # rest) =
     (if c = CHR ''$'' \<and> d = CHR ''$'' then CHR ''$'' # getSubstitution matched pre post rest
      else if c = CHR ''$'' \<and> d = CHR ''&'' then matched @ getSubstitution matched pre post rest
      else if c = CHR ''$'' \<and> d = CHR 0x60 then pre @ getSubstitution matched pre post rest
      else if c = CHR ''$'' \<and> d = CHR 0x27 then post @ getSubstitution matched pre post rest
      else c # getSubstitution matched pre post (d # rest))"

text \<open>
  The replacement patterns that \<^verbatim>\<open>GetSubstitution\<close> expands for a string pattern: a dollar
  sign followed at once by a dollar sign, an ampersand, a backquote or a quote. (There are
  no captures, so a dollar sign before a digit or \<^verbatim>\<open><\<close> stays as it is.)
\<close>

fun dollar_pattern :: "string \<Rightarrow> bool" where
  "dollar_pattern [] = False"
| "dollar_pattern [c] = False"
| "dollar_pattern (c # d # rest) =
     ((c = CHR ''$'' \<and> (d = CHR ''$'' \<or> d = CHR ''&'' \<or> d = CHR 0x60 \<or> d = CHR 0x27)) \<or>
      dollar_pattern (d # rest))"

definition replaceString :: "string \<Rightarrow> string \<Rightarrow> string \<Rightarrow> string" where
  "replaceString s pattern replacement =
     (case indexOf s pattern of
        None \<Rightarrow> s
      | Some i \<Rightarrow>
          take i s @
          getSubstitution pattern (take i s) (drop (i + length pattern) s) replacement @
          drop (i + length pattern) s)"

text \<open>
  \<^verbatim>\<open>s.split(/\s+/)\<close>: the pieces between the maximal runs of whitespace; a string that begins
  or ends with whitespace gives an empty first or last piece.
\<close>

function split_ws :: "string \<Rightarrow> string list" where
  "split_ws s =
     (case dropWhile (\<lambda>c. \<not> is_space c) s of
        [] \<Rightarrow> [s]
      | c # r \<Rightarrow> takeWhile (\<lambda>c. \<not> is_space c) s # split_ws (dropWhile is_space r))"
  by pat_completeness auto
termination
proof (relation "measure length", goal_cases)
  case 1
  show ?case by simp
next
  case (2 s c r)
  have "length (dropWhile is_space r) \<le> length r" by (rule length_dropWhile_le)
  moreover have "length (c # r) \<le> length s"
    using 2 length_dropWhile_le [of "\<lambda>c. \<not> is_space c" s] by simp
  ultimately show ?case by simp
qed

declare split_ws.simps [simp del]

text \<open>
  The regular expression of the second tier is the tokens, each escaped so that it
  matches itself, joined by \<^verbatim>\<open>\s+\<close>. \<open>matchTokens\<close> matches it at the start of a string and
  returns the length matched: a token is a prefix, and \<^verbatim>\<open>\s+\<close> takes the longest run of
  whitespace first and backs off one character at a time (\<open>matchSpaces\<close>) as long as the
  rest does not match. \<open>regexSearch\<close> tries the start positions from the left, as
  \<^verbatim>\<open>regex.test\<close> and \<^verbatim>\<open>replace\<close> do for a regular expression without the \<^verbatim>\<open>g\<close> flag; the
  pattern has no anchors, so the \<^verbatim>\<open>m\<close> flag changes nothing.
\<close>

fun matchTokens :: "string list \<Rightarrow> string \<Rightarrow> nat option"
  and matchSpaces :: "string list \<Rightarrow> string \<Rightarrow> nat \<Rightarrow> nat option" where
  "matchTokens [] s = Some 0"
| "matchTokens [t] s = (if prefix t s then Some (length t) else None)"
| "matchTokens (t # u # ts) s =
     (if prefix t s
      then map_option (\<lambda>n. length t + n)
             (matchSpaces (u # ts) (drop (length t) s)
                (length (takeWhile is_space (drop (length t) s))))
      else None)"
| "matchSpaces ts s 0 = None"
| "matchSpaces ts s (Suc k) =
     (case matchTokens ts (drop (Suc k) s) of
        Some n \<Rightarrow> Some (Suc k + n)
      | None \<Rightarrow> matchSpaces ts s k)"

fun regexSearch :: "string list \<Rightarrow> string \<Rightarrow> (nat \<times> nat) option" where
  "regexSearch ts [] = map_option (Pair 0) (matchTokens ts [])"
| "regexSearch ts (c # cs) =
     (case matchTokens ts (c # cs) of
        Some n \<Rightarrow> Some (0, n)
      | None \<Rightarrow> map_option (\<lambda>(i, n). (Suc i, n)) (regexSearch ts cs))"

text \<open>
  \<^verbatim>\<open>findAndReplace\<close>. The first tier passes the replacement as a string, so it is expanded;
  the second passes it as a function (\<^verbatim>\<open>() => replace\<close>), so it is inserted as it is.
\<close>

definition findAndReplace :: "string \<Rightarrow> string \<Rightarrow> DocumentState \<Rightarrow> bool \<times> DocumentState" where
  "findAndReplace findStr replaceStr state =
     (case getActiveFile state of
        None \<Rightarrow> (False, state)
      | Some activeFile \<Rightarrow>
          if f_type activeFile \<noteq> Tex then (False, state)
          else if findStr = [] then (False, state)
          else
            (case
               (if js_includes (contentOf activeFile) findStr
                then Some (replaceString (contentOf activeFile) findStr replaceStr)
                else if length (trim findStr) \<ge> 16
                then
                  (let tokens = split_ws (trim findStr)
                   in if length tokens \<ge> 3
                      then (case regexSearch tokens (contentOf activeFile) of
                              None \<Rightarrow> None
                            | Some (i, n) \<Rightarrow>
                                Some (take i (contentOf activeFile) @ replaceStr @
                                      drop (i + n) (contentOf activeFile)))
                      else None)
                else None)
             of
               None \<Rightarrow> (False, state)
             | Some newContent \<Rightarrow>
                 (True,
                  state\<lparr>files := withContent (f_id activeFile) newContent (files state)\<rparr>)))"


text \<open>
  What the tiers are to find, stated without the search: the needle occurs at a position;
  a text matches the pattern of the tokens when it is the tokens in order with a
  non-empty run of whitespace between each two; the pattern occurs at a position with a
  length.
\<close>

definition occurs_at :: "string \<Rightarrow> string \<Rightarrow> nat \<Rightarrow> bool" where
  "occurs_at needle s i = (i + length needle \<le> length s \<and> take (length needle) (drop i s) = needle)"

definition first_occurrence :: "string \<Rightarrow> string \<Rightarrow> nat \<Rightarrow> bool" where
  "first_occurrence needle s i = (occurs_at needle s i \<and> (\<forall>j<i. \<not> occurs_at needle s j))"

inductive pattern_match :: "string list \<Rightarrow> string \<Rightarrow> bool" where
  last_token: "pattern_match [t] t"
| token_spaces: "w \<noteq> [] \<Longrightarrow> \<forall>c \<in> set w. is_space c \<Longrightarrow> pattern_match (u # ts) m \<Longrightarrow>
     pattern_match (t # u # ts) (t @ w @ m)"

definition pattern_at :: "string list \<Rightarrow> string \<Rightarrow> nat \<Rightarrow> nat \<Rightarrow> bool" where
  "pattern_at tokens s i n = (i + n \<le> length s \<and> pattern_match tokens (take n (drop i s)))"

text \<open>The active file exists and is a \<^verbatim>\<open>tex\<close> file.\<close>

definition activeTex :: "DocumentState \<Rightarrow> bool" where
  "activeTex state = (\<exists>activeFile. getActiveFile state = Some activeFile \<and> f_type activeFile = Tex)"

text \<open>A document whose text has the words of a needle with other whitespace.\<close>

definition fuzzy_example :: DocumentState where
  "fuzzy_example =
     (createDefaultDocumentState ''see the  quick brown   fox run'')"

section \<open>The selection bar: preview, editor view and transform request\<close>

text \<open>
  The component \<^verbatim>\<open>SelectionOptimizeBar\<close> holds the preview of a rewrite and applies it. Its
  state and what it reads are one record, \<open>Editor\<close>: the document store, the editor view
  when one is mounted (\<^verbatim>\<open>editorViewRef.current\<close>), the last selection, the preview, the
  option fields of the dialog, the provider settings, and two logs, the toasts shown and
  the transform requests sent. The preview status \<^verbatim>\<open>error\<close> is \<open>Failed\<close>. A toast stands
  for its message: no provider available, selected text too long, text changed so the
  replacement cannot be applied (the apply conflict), applied.
\<close>

datatype PreviewStatus = Loading | Ready | Failed

datatype TransformMode = Polish | Rewrite | Expand | Translate

datatype TargetLanguage = En | ZhCN

datatype WritingStyle = Academic | Professional | Creative

datatype ThinkingStyle = Rigorous | Divergent

record Preview =
  p_start :: nat
  p_end :: nat
  p_mode :: TransformMode
  p_original :: string
  p_status :: PreviewStatus
  p_next :: string
  p_changes :: "string list"
  p_error :: "string option"

datatype Toast = NoProviderError | TextTooLongError | ApplyConflictError | AppliedSuccess

text \<open>
  The editor view is CodeMirror's, which is not part of this repository: its document,
  the main selection and the focus. \<^verbatim>\<open>view.dispatch\<close> with a change and a cursor position
  replaces the range and puts the cursor at the anchor; CodeMirror throws \<^verbatim>\<open>RangeError\<close>
  for a change that does not lie in the document and for a selection outside the new
  document. The update listener of the editor, which copies the view's document and
  selection to the store afterwards, is not part of \<^verbatim>\<open>applyPreview\<close> and is left out.
\<close>

record EditorView =
  v_doc :: string
  v_from :: nat
  v_to :: nat
  v_focused :: bool



text \<open>The provider settings; a transform request as the body sent to \<^verbatim>\<open>/api/chat\<close>;
  the optional third argument of \<^verbatim>\<open>runTransform\<close>.\<close>

record AIModelConfig =
  m_id :: string
  m_modelName :: string

record AIProviderConfig =
  pr_id :: string
  pr_name :: string
  pr_baseUrl :: string
  pr_apiKey :: string
  pr_models :: "AIModelConfig list"

record TransformCall =
  c_mode :: TransformMode
  c_targetLanguage :: "TargetLanguage option"
  c_text :: string
  c_analysisBaseText :: string
  c_writingStyle :: WritingStyle
  c_thinkingStyle :: ThinkingStyle
  c_instructions :: "string option"
  c_apiKey :: "string option"
  c_baseUrl :: "string option"
  c_modelName :: "string option"

record TransformOptions =
  o_text :: "string option"
  o_analysisBaseText :: "string option"
  o_instructions :: "string option"
  o_range :: "(nat \<times> nat \<times> string) option"

record Editor =
  store :: DocumentState
  view :: "EditorView option"
  lastSelection :: "(nat \<times> nat \<times> string) option"
  preview :: "Preview option"
  instructionInput :: string
  isWorking :: bool
  transformMode :: TransformMode
  targetLanguage :: TargetLanguage
  writingStyle :: WritingStyle
  thinkingStyle :: ThinkingStyle
  providers :: "AIProviderConfig list"
  activeProviderId :: string
  modelAssignments :: "TransformMode \<Rightarrow> string"
  toasts :: "Toast list"
  requests :: "TransformCall list"










text \<open>\<^verbatim>\<open>runTransform\<close> up to the request. The model is the one assigned to the mode, else
  the first model of the active (else the first) provider. The captured range is the
  caller's, else the live selection of the view when it is not empty, else the last
  selection, with the text read from the view or, without a view, from the \<^verbatim>\<open>content\<close>
  property of the store (the value of the hook); \<^verbatim>\<open>sliceDoc\<close> is taken to clamp as
  \<^verbatim>\<open>slice\<close> does. \<open>orElse\<close> is \<^verbatim>\<open>??\<close> and \<open>nonEmpty\<close> is \<^verbatim>\<open>|| undefined\<close> on a string. What
  follows the request (the stream of events into the preview) is not modelled; no event
  reaches the preview unless a request was sent.\<close>

definition resolveModel :: "Editor \<Rightarrow> TransformMode \<Rightarrow> (AIProviderConfig \<times> AIModelConfig) option" where
  "resolveModel e mode =
     (case find (\<lambda>item. snd item \<noteq> None)
             (map (\<lambda>provider.
                     (provider,
                      find (\<lambda>item. m_id item = modelAssignments e mode) (pr_models provider)))
                (providers e)) of
        Some (provider, Some model) \<Rightarrow> Some (provider, model)
      | _ \<Rightarrow>
          (case (case find (\<lambda>p. pr_id p = activeProviderId e) (providers e) of
                   Some p \<Rightarrow> Some p
                 | None \<Rightarrow> (case providers e of [] \<Rightarrow> None | p # _ \<Rightarrow> Some p)) of
             None \<Rightarrow> None
           | Some fallbackProvider \<Rightarrow>
               (case pr_models fallbackProvider of
                  [] \<Rightarrow> None
                | fallbackModel # _ \<Rightarrow> Some (fallbackProvider, fallbackModel))))"

definition capturedRange :: "Editor \<Rightarrow> TransformOptions \<Rightarrow> nat \<times> nat \<times> string" where
  "capturedRange e options =
     (case o_range options of
        Some givenRange \<Rightarrow> givenRange
      | None \<Rightarrow>
          (case (case view e of
                   Some v \<Rightarrow>
                     if v_from v \<noteq> v_to v then Some (v_from v, v_to v)
                     else map_option (\<lambda>(start, end, text). (start, end)) (lastSelection e)
                 | None \<Rightarrow> map_option (\<lambda>(start, end, text). (start, end)) (lastSelection e)) of
             None \<Rightarrow> (0, 0, [])
           | Some (start, end) \<Rightarrow>
               (start, end,
                (case view e of
                   Some v \<Rightarrow> js_slice (v_doc v) start end
                 | None \<Rightarrow> js_slice (contentProperty (store e)) start end))))"

definition orElse :: "'a option \<Rightarrow> 'a \<Rightarrow> 'a" where
  "orElse x d = (case x of Some y \<Rightarrow> y | None \<Rightarrow> d)"

definition nonEmpty :: "string \<Rightarrow> string option" where
  "nonEmpty s = (if s = [] then None else Some s)"

definition runTransform ::
  "TransformMode \<Rightarrow> TargetLanguage option \<Rightarrow> TransformOptions \<Rightarrow> Editor \<Rightarrow> Editor" where
  "runTransform mode targetLang options e =
     (case resolveModel e mode of
        None \<Rightarrow> e\<lparr>toasts := toasts e @ [NoProviderError]\<rparr>
      | Some (activeProvider, activeModel) \<Rightarrow>
          (case capturedRange e options of
             (start, end, original) \<Rightarrow>
               if trim original = []
               then e\<lparr>transformMode := mode,
                      targetLanguage := orElse targetLang (targetLanguage e)\<rparr>
               else if length original > 4000
               then e\<lparr>transformMode := mode,
                      targetLanguage := orElse targetLang (targetLanguage e),
                      toasts := toasts e @ [TextTooLongError]\<rparr>
               else e\<lparr>transformMode := mode,
                      targetLanguage := orElse targetLang (targetLanguage e),
                      isWorking := True,
                      preview := Some
                        \<lparr>p_start = start, p_end = end, p_mode = mode, p_original = original,
                         p_status = Loading, p_next = [], p_changes = [], p_error = None\<rparr>,
                      requests := requests e @
                        [\<lparr>c_mode = mode, c_targetLanguage = targetLang,
                          c_text = orElse (o_text options) original,
                          c_analysisBaseText = orElse (o_analysisBaseText options) original,
                          c_writingStyle = writingStyle e, c_thinkingStyle = thinkingStyle e,
                          c_instructions =
                            nonEmpty (orElse (map_option trim (o_instructions options)) []),
                          c_apiKey = nonEmpty (pr_apiKey activeProvider),
                          c_baseUrl = nonEmpty (pr_baseUrl activeProvider),
                          c_modelName = nonEmpty (m_modelName activeModel)\<rparr>]\<rparr>))"

text \<open>The captured source text that \<^verbatim>\<open>runTransform\<close> validates (\<^verbatim>\<open>range.original\<close>).\<close>

definition sourceText :: "Editor \<Rightarrow> TransformOptions \<Rightarrow> string" where
  "sourceText e options = snd (snd (capturedRange e options))"

text \<open>Editors, previews and options for examples: the store after the text of the default
  document was set (its \<^verbatim>\<open>content\<close> property still holds the default text); an editor on
  it with one provider; a long document with the needle at both ends and 2000 other
  characters between; a text of a given length.\<close>

definition no_options :: TransformOptions where
  "no_options = \<lparr>o_text = None, o_analysisBaseText = None, o_instructions = None, o_range = None\<rparr>"

definition document_state :: "string \<Rightarrow> DocumentState" where
  "document_state text =
     (createDefaultDocumentState default_tex)
       \<lparr>files := withContent ''default-tex'' text (files (createDefaultDocumentState default_tex))\<rparr>"

definition editor_on :: "string \<Rightarrow> EditorView option \<Rightarrow> Preview option \<Rightarrow> Editor" where
  "editor_on text v p =
     \<lparr>store = document_state text, view = v, lastSelection = None, preview = p,
      instructionInput = [], isWorking = False, transformMode = Polish, targetLanguage = En,
      writingStyle = Academic, thinkingStyle = Rigorous,
      providers =
        [\<lparr>pr_id = ''openai'', pr_name = ''OpenAI'', pr_baseUrl = ''https://api.openai.com/v1'',
          pr_apiKey = [], pr_models = [\<lparr>m_id = ''openai:gpt-4o'', m_modelName = ''gpt-4o''\<rparr>]\<rparr>],
      activeProviderId = ''openai'', modelAssignments = (\<lambda>mode. ''openai:gpt-4o''),
      toasts = [], requests = []\<rparr>"





definition text_of_length :: "nat \<Rightarrow> string" where
  "text_of_length n = replicate n CHR ''a''"

definition range_options :: "string \<Rightarrow> TransformOptions" where
  "range_options original = no_options\<lparr>o_range := Some (0, length original, original)\<rparr>"

section \<open>Properties\<close>

lemma saveHistoryEntry_length:
  "length (historyEntries state) \<le> 50 \<Longrightarrow>
   length (historyEntries (snd (saveHistoryEntry newId now state))) \<le> 50"
  by (simp add: saveHistoryEntry_def split: option.splits)

lemma saveHistoryEntries_length:
  "length (historyEntries state) \<le> 50 \<Longrightarrow>
   length (historyEntries (saveHistoryEntries calls state)) \<le> 50"
proof (induction calls arbitrary: state)
  case Nil
  then show ?case by simp
next
  case (Cons c calls)
  obtain newId now where c: "c = (newId, now)" by (cases c)
  from Cons.prems have "length (historyEntries (snd (saveHistoryEntry newId now state))) \<le> 50"
    by (rule saveHistoryEntry_length)
  then show ?case using Cons.IH c by simp
qed

text \<open>
  C8: starting from a history of at most fifty entries (the default state has none), no
  run of \<^verbatim>\<open>saveHistoryEntry\<close> calls makes the history longer than fifty; a call on a
  text-bearing active file returns the new id and leaves the new snapshot followed by the
  old entries, cut to the first fifty (so the oldest are the ones dropped); a call while
  the active file is missing or not text-bearing returns null and changes nothing.
\<close>

theorem saveHistoryEntry_cap:
  "(length (historyEntries state) \<le> 50 \<longrightarrow>
      length (historyEntries (saveHistoryEntries calls state)) \<le> 50) \<and>
   (\<forall>activeFile. getActiveFile state = Some activeFile \<and> f_type activeFile = Tex \<longrightarrow>
      fst (saveHistoryEntry newId now state) = Some newId \<and>
      historyEntries (snd (saveHistoryEntry newId now state)) =
        take 50 (\<lparr>h_id = newId, h_fileId = f_id activeFile, h_createdAt = now,
                   h_content = content state\<rparr> # historyEntries state) \<and>
      snd (saveHistoryEntry newId now state) =
        state\<lparr>historyEntries := historyEntries (snd (saveHistoryEntry newId now state))\<rparr>) \<and>
   ((\<forall>activeFile. getActiveFile state = Some activeFile \<longrightarrow> f_type activeFile \<noteq> Tex) \<longrightarrow>
      saveHistoryEntry newId now state = (None, state))"
proof (intro conjI)
  show "length (historyEntries state) \<le> 50 \<longrightarrow>
      length (historyEntries (saveHistoryEntries calls state)) \<le> 50"
    by (simp add: saveHistoryEntries_length)
next
  show "\<forall>activeFile. getActiveFile state = Some activeFile \<and> f_type activeFile = Tex \<longrightarrow>
      fst (saveHistoryEntry newId now state) = Some newId \<and>
      historyEntries (snd (saveHistoryEntry newId now state)) =
        take 50 (\<lparr>h_id = newId, h_fileId = f_id activeFile, h_createdAt = now,
                   h_content = content state\<rparr> # historyEntries state) \<and>
      snd (saveHistoryEntry newId now state) =
        state\<lparr>historyEntries := historyEntries (snd (saveHistoryEntry newId now state))\<rparr>"
    by (simp add: saveHistoryEntry_def content_def)
next
  show "(\<forall>activeFile. getActiveFile state = Some activeFile \<longrightarrow> f_type activeFile \<noteq> Tex) \<longrightarrow>
      saveHistoryEntry newId now state = (None, state)"
    by (simp add: saveHistoryEntry_def split: option.splits)
qed

theorem saveHistoryEntry_cap_witness:
  "length (historyEntries (saveHistoryEntries [(''h1'', 1), (''h2'', 2)]
       (createDefaultDocumentState ''abc''))) \<le> 50 \<and>
   saveHistoryEntry ''h1'' 7 (createDefaultDocumentState ''abc'') =
     (Some ''h1'',
      (createDefaultDocumentState ''abc'')\<lparr>historyEntries :=
        [\<lparr>h_id = ''h1'', h_fileId = ''default-tex'', h_createdAt = 7, h_content = ''abc''\<rparr>]\<rparr>) \<and>
   saveHistoryEntry ''h1'' 7 ((createDefaultDocumentState ''abc'')\<lparr>files := []\<rparr>) =
     (None, (createDefaultDocumentState ''abc'')\<lparr>files := []\<rparr>)"
  using saveHistoryEntry_cap [of "createDefaultDocumentState ''abc''" "[(''h1'', 1), (''h2'', 2)]"
      "''h1''" 7]
    saveHistoryEntry_cap [of "(createDefaultDocumentState ''abc'')\<lparr>files := []\<rparr>" "[]" "''h1''" 7]
  by (simp add: createDefaultDocumentState_def getActiveFile_def content_def
      saveHistoryEntry_def)

text \<open>
  C10: \<^verbatim>\<open>moveFile\<close> changes nothing when the node its id denotes (the first file with
  that id) is a folder, whatever the target parent.
\<close>

theorem moveFile_folder_noop:
  "find (\<lambda>f. f_id f = i) (files state) = Some target \<Longrightarrow> f_type target = Folder \<Longrightarrow>
   moveFile i parentId state = state"
  by (simp add: moveFile_def)

theorem moveFile_folder_noop_witness:
  "moveFile ''d'' (Some ''e'')
     ((createDefaultDocumentState ''abc'')\<lparr>files :=
        [\<lparr>f_id = ''d'', f_name = ''figures'', f_type = Folder, f_parentId = None,
          f_content = None, f_dataUrl = None\<rparr>,
         \<lparr>f_id = ''e'', f_name = ''chapters'', f_type = Folder, f_parentId = None,
          f_content = None, f_dataUrl = None\<rparr>]\<rparr>) =
   (createDefaultDocumentState ''abc'')\<lparr>files :=
        [\<lparr>f_id = ''d'', f_name = ''figures'', f_type = Folder, f_parentId = None,
          f_content = None, f_dataUrl = None\<rparr>,
         \<lparr>f_id = ''e'', f_name = ''chapters'', f_type = Folder, f_parentId = None,
          f_content = None, f_dataUrl = None\<rparr>]\<rparr>"
  using moveFile_folder_noop [of "''d''"
      "(createDefaultDocumentState ''abc'')\<lparr>files :=
        [\<lparr>f_id = ''d'', f_name = ''figures'', f_type = Folder, f_parentId = None,
          f_content = None, f_dataUrl = None\<rparr>,
         \<lparr>f_id = ''e'', f_name = ''chapters'', f_type = Folder, f_parentId = None,
          f_content = None, f_dataUrl = None\<rparr>]\<rparr>"
      "\<lparr>f_id = ''d'', f_name = ''figures'', f_type = Folder, f_parentId = None,
          f_content = None, f_dataUrl = None\<rparr>" "Some ''e''"]
  by simp

section \<open>Deleting a subtree\<close>

lemma collect_sound:
  "set items \<subseteq> set fs \<Longrightarrow> folderId \<in> subtree_ids fs i \<Longrightarrow> ids \<subseteq> subtree_ids fs i \<Longrightarrow>
   collectFolderChildren fs folderId items ids \<subseteq> subtree_ids fs i"
proof (induction fs folderId items ids rule: collectFolderChildren.induct)
  case (1 fs folderId idsToDelete)
  then show ?case by simp
next
  case (2 fs folderId item rest ids)
  show ?case
  proof (cases "f_parentId item = Some folderId \<and> f_id item \<notin> ids")
    case False
    then show ?thesis using 2 by auto
  next
    case True
    have "(f_id item, folderId) \<in> parent_edges fs"
      using True "2.prems"(1) by (auto simp: parent_edges_def)
    then have in_sub: "f_id item \<in> subtree_ids fs i"
      using "2.prems"(2) by (auto simp: subtree_ids_def intro: converse_rtrancl_into_rtrancl)
    show ?thesis
    proof (cases "f_type item = Folder")
      case isf: True
      have inner: "collectFolderChildren fs (f_id item) fs (insert (f_id item) ids)
          \<subseteq> subtree_ids fs i"
        using True isf in_sub "2.prems" by (intro "2.IH"(3)) auto
      have "collectFolderChildren fs folderId rest
              (collectFolderChildren fs (f_id item) fs (insert (f_id item) ids))
            \<subseteq> subtree_ids fs i"
        using True isf inner "2.prems" by (intro "2.IH"(4)) auto
      then show ?thesis using True isf by simp
    next
      case nf: False
      have "collectFolderChildren fs folderId rest (insert (f_id item) ids)
            \<subseteq> subtree_ids fs i"
        using True nf in_sub "2.prems" by (intro "2.IH"(5)) auto
      then show ?thesis using True nf by simp
    qed
  qed
qed

lemma collect_mono: "ids \<subseteq> collectFolderChildren fs folderId items ids"
  by (induction fs folderId items ids rule: collectFolderChildren.induct)
     (simp, simp, blast)

lemma children_in_mono: "children_in fs x D \<Longrightarrow> D \<subseteq> E \<Longrightarrow> children_in fs x E"
  by (auto simp: children_in_def)

lemma collect_complete:
  "set items \<subseteq> set fs \<Longrightarrow>
   (\<forall>n \<in> set items. f_parentId n = Some folderId \<longrightarrow>
      f_id n \<in> collectFolderChildren fs folderId items ids) \<and>
   (\<forall>x \<in> collectFolderChildren fs folderId items ids - ids.
      \<exists>m \<in> set fs. f_id m = x \<and>
        (f_type m = Folder \<longrightarrow>
           children_in fs x (collectFolderChildren fs folderId items ids)))"
proof (induction fs folderId items ids rule: collectFolderChildren.induct)
  case (1 fs folderId idsToDelete)
  then show ?case by simp
next
  case (2 fs folderId item rest ids)
  from "2.prems" have rest: "set rest \<subseteq> set fs" and item: "item \<in> set fs" by auto
  show ?case
  proof (cases "f_parentId item = Some folderId")
    case False
    then show ?thesis using "2.IH"(1) rest by simp
  next
    case par: True
    show ?thesis
    proof (cases "f_id item \<in> ids")
      case True
      have "ids \<subseteq> collectFolderChildren fs folderId rest ids" by (rule collect_mono)
      then show ?thesis using "2.IH"(2) [OF _ _ rest] par True by auto
    next
      case new: False
      show ?thesis
      proof (cases "f_type item = Folder")
        case isf: True
        let ?R1 = "collectFolderChildren fs (f_id item) fs (insert (f_id item) ids)"
        let ?R = "collectFolderChildren fs folderId rest ?R1"
        have eq: "collectFolderChildren fs folderId (item # rest) ids = ?R"
          using par new isf by simp
        have inner: "(\<forall>n \<in> set fs. f_parentId n = Some (f_id item) \<longrightarrow> f_id n \<in> ?R1) \<and>
           (\<forall>x \<in> ?R1 - insert (f_id item) ids.
              \<exists>m \<in> set fs. f_id m = x \<and> (f_type m = Folder \<longrightarrow> children_in fs x ?R1))"
          using par new isf by (intro "2.IH"(3)) auto
        have outer: "(\<forall>n \<in> set rest. f_parentId n = Some folderId \<longrightarrow> f_id n \<in> ?R) \<and>
           (\<forall>x \<in> ?R - ?R1.
              \<exists>m \<in> set fs. f_id m = x \<and> (f_type m = Folder \<longrightarrow> children_in fs x ?R))"
          using par new isf rest by (intro "2.IH"(4)) auto
        have m1: "insert (f_id item) ids \<subseteq> ?R1" by (rule collect_mono)
        have m2: "?R1 \<subseteq> ?R" by (rule collect_mono)
        have a: "\<forall>n \<in> set (item # rest). f_parentId n = Some folderId \<longrightarrow> f_id n \<in> ?R"
          using outer m1 m2 by auto
        have b: "\<exists>m \<in> set fs. f_id m = x \<and> (f_type m = Folder \<longrightarrow> children_in fs x ?R)"
          if x: "x \<in> ?R - ids" for x
        proof (cases "x \<in> ?R1")
          case False
          then show ?thesis using outer x by blast
        next
          case in1: True
          show ?thesis
          proof (cases "x = f_id item")
            case True
            have "children_in fs (f_id item) ?R1"
              using inner by (simp add: children_in_def)
            then have "children_in fs (f_id item) ?R" using m2 by (rule children_in_mono)
            then show ?thesis using True item by blast
          next
            case False
            then have "x \<in> ?R1 - insert (f_id item) ids" using in1 x by blast
            then obtain m where "m \<in> set fs" "f_id m = x"
              "f_type m = Folder \<longrightarrow> children_in fs x ?R1"
              using inner by blast
            then show ?thesis using m2 children_in_mono by blast
          qed
        qed
        show ?thesis unfolding eq using a b by blast
      next
        case nf: False
        let ?R = "collectFolderChildren fs folderId rest (insert (f_id item) ids)"
        have eq: "collectFolderChildren fs folderId (item # rest) ids = ?R"
          using par new nf by simp
        have outer: "(\<forall>n \<in> set rest. f_parentId n = Some folderId \<longrightarrow> f_id n \<in> ?R) \<and>
           (\<forall>x \<in> ?R - insert (f_id item) ids.
              \<exists>m \<in> set fs. f_id m = x \<and> (f_type m = Folder \<longrightarrow> children_in fs x ?R))"
          using par new nf rest by (intro "2.IH"(5)) auto
        have m1: "insert (f_id item) ids \<subseteq> ?R" by (rule collect_mono)
        have a: "\<forall>n \<in> set (item # rest). f_parentId n = Some folderId \<longrightarrow> f_id n \<in> ?R"
          using outer m1 by auto
        have b: "\<exists>m \<in> set fs. f_id m = x \<and> (f_type m = Folder \<longrightarrow> children_in fs x ?R)"
          if x: "x \<in> ?R - ids" for x
        proof (cases "x = f_id item")
          case True
          then show ?thesis using item nf by blast
        next
          case False
          then show ?thesis using outer x by blast
        qed
        show ?thesis unfolding eq using a b by blast
      qed
    qed
  qed
qed

lemma distinct_ids_eq:
  "distinct (map f_id fs) \<Longrightarrow> m \<in> set fs \<Longrightarrow> g \<in> set fs \<Longrightarrow> f_id m = f_id g \<Longrightarrow> m = g"
  by (meson distinct_map inj_on_eq_iff)

lemma find_id_in_set:
  "find (\<lambda>f. f_id f = i) fs = Some target \<Longrightarrow> target \<in> set fs \<and> f_id target = i"
  by (auto simp: find_Some_iff)

lemma idsToDelete_exact:
  assumes found: "find (\<lambda>f. f_id f = i) fs = Some target"
    and fh: "folders_hold_children fs i"
  shows "idsToDelete fs i target = subtree_ids fs i"
proof (cases "f_type target = Folder")
  case isf: True
  let ?D = "collectFolderChildren fs i fs {i}"
  have D: "idsToDelete fs i target = ?D" using isf by (simp add: idsToDelete_def)
  have self: "i \<in> subtree_ids fs i" by (simp add: subtree_ids_def)
  have sound: "?D \<subseteq> subtree_ids fs i"
    using self by (intro collect_sound) auto
  have compl: "(\<forall>n \<in> set fs. f_parentId n = Some i \<longrightarrow> f_id n \<in> ?D) \<and>
     (\<forall>x \<in> ?D - {i}. \<exists>m \<in> set fs. f_id m = x \<and> (f_type m = Folder \<longrightarrow> children_in fs x ?D))"
    by (intro collect_complete) simp
  have iD: "i \<in> ?D" using collect_mono [of "{i}" fs i fs] by simp
  have "x \<in> ?D" if "(x, i) \<in> (parent_edges fs)\<^sup>*" for x
    using that
  proof (induction rule: converse_rtrancl_induct)
    case base
    show ?case by (rule iD)
  next
    case (step y z)
    from step.hyps(1) obtain n where n: "n \<in> set fs" "f_id n = y" "f_parentId n = Some z"
      by (auto simp: parent_edges_def)
    show ?case
    proof (cases "z = i")
      case True
      then show ?thesis using compl n by blast
    next
      case False
      then obtain m where m: "m \<in> set fs" "f_id m = z"
          "f_type m = Folder \<longrightarrow> children_in fs z ?D"
        using compl step.IH by blast
      have "f_id m \<in> subtree_ids fs i" using m(2) step.IH sound by auto
      then have "f_type m = Folder"
        using fh m(1,2) n(1,3) unfolding folders_hold_children_def by blast
      then have "children_in fs z ?D" using m by simp
      then show ?thesis using n by (auto simp: children_in_def)
    qed
  qed
  then have "subtree_ids fs i \<subseteq> ?D" by (auto simp: subtree_ids_def)
  then show ?thesis using D sound by auto
next
  case nf: False
  have t: "target \<in> set fs" "f_id target = i" using find_id_in_set [OF found] by auto
  have self: "f_id target \<in> subtree_ids fs i" using t(2) by (simp add: subtree_ids_def)
  have "x = i" if "(x, i) \<in> (parent_edges fs)\<^sup>*" for x
    using that
  proof (induction rule: converse_rtrancl_induct)
    case base
    show ?case by simp
  next
    case (step y z)
    from step.hyps(1) obtain n where n: "n \<in> set fs" "f_id n = y" "f_parentId n = Some z"
      by (auto simp: parent_edges_def)
    have "f_type target = Folder"
      using fh t self n(1,3) step.IH unfolding folders_hold_children_def by blast
    then show ?case using nf by simp
  qed
  then have "subtree_ids fs i = {i}" by (auto simp: subtree_ids_def)
  then show ?thesis using nf by (simp add: idsToDelete_def)
qed

text \<open>
  C6 (amended): on a file list in which every node of the subtree at \<open>i\<close> that has a child
  is a folder, \<^verbatim>\<open>deleteFile(i)\<close> does this. When \<open>i\<close> is the id of a node and a file that is
  not a folder stays outside the subtree at \<open>i\<close>, it leaves exactly the files outside that
  subtree: the node and each of its transitive descendants are gone and nothing else is.
  Otherwise (no node has the id, or the delete would take the last file that is not a
  folder) the state is unchanged. In each case no file that is left has a \<^verbatim>\<open>parentId\<close> that
  is a deleted id.
\<close>

theorem deleteFile_cascade:
  assumes fh: "folders_hold_children (files state) i"
  shows "(if i \<in> f_id ` set (files state) \<and>
             (\<exists>f \<in> set (files state). f_type f \<noteq> Folder \<and> f_id f \<notin> subtree_ids (files state) i)
          then files (deleteFile i state) =
                 filter (\<lambda>f. f_id f \<notin> subtree_ids (files state) i) (files state)
          else deleteFile i state = state) \<and>
         (\<forall>n \<in> set (files (deleteFile i state)). \<forall>p. f_parentId n = Some p \<longrightarrow>
            p \<notin> f_id ` set (files state) - f_id ` set (files (deleteFile i state)))"
proof -
  let ?fs = "files state"
  let ?keep = "filter (\<lambda>f. f_id f \<notin> subtree_ids ?fs i) ?fs"
  have nonfolder: "(filter (\<lambda>f. f_type f \<noteq> Folder) ?keep = []) =
      (\<not> (\<exists>f \<in> set ?fs. f_type f \<noteq> Folder \<and> f_id f \<notin> subtree_ids ?fs i))"
    by (auto simp: filter_empty_conv)
  have first: "if i \<in> f_id ` set ?fs \<and>
             (\<exists>f \<in> set ?fs. f_type f \<noteq> Folder \<and> f_id f \<notin> subtree_ids ?fs i)
          then files (deleteFile i state) = ?keep else deleteFile i state = state"
  proof (cases "find (\<lambda>f. f_id f = i) ?fs")
    case None
    then have "i \<notin> f_id ` set ?fs" by (auto simp: find_None_iff)
    then show ?thesis using None by (simp add: deleteFile_def)
  next
    case (Some target)
    have "i \<in> f_id ` set ?fs" using find_id_in_set [OF Some] by auto
    moreover have "idsToDelete ?fs i target = subtree_ids ?fs i"
      using Some fh by (rule idsToDelete_exact)
    ultimately show ?thesis using Some nonfolder by (auto simp: deleteFile_def Let_def)
  qed
  have second: "p \<notin> f_id ` set ?fs - f_id ` set (files (deleteFile i state))"
    if n: "n \<in> set (files (deleteFile i state))" and p: "f_parentId n = Some p" for n p
  proof (cases "deleteFile i state = state")
    case True
    then show ?thesis by simp
  next
    case False
    then have fs': "files (deleteFile i state) = ?keep"
      using first by (auto split: if_splits)
    have nin: "n \<in> set ?fs" "f_id n \<notin> subtree_ids ?fs i" using n fs' by auto
    have "(f_id n, p) \<in> parent_edges ?fs" using nin p by (auto simp: parent_edges_def)
    then have "p \<notin> subtree_ids ?fs i"
      using nin(2) by (auto simp: subtree_ids_def intro: converse_rtrancl_into_rtrancl)
    then show ?thesis using fs' by auto
  qed
  show ?thesis using first second by blast
qed

theorem deleteFile_cascade_witness:
  "folders_hold_children (files example_tree) ''d'' \<and>
   map f_id (files (deleteFile ''d'' example_tree)) = [''c''] \<and>
   filter (\<lambda>f. f_id f \<notin> subtree_ids (files example_tree) ''d'') (files example_tree) =
     files (deleteFile ''d'' example_tree) \<and>
   deleteFile ''c'' (deleteFile ''d'' example_tree) = deleteFile ''d'' example_tree \<and>
   deleteFile ''z'' example_tree = example_tree"
proof -
  have v: "folders_hold_children (files example_tree) ''d''"
    by (simp add: folders_hold_children_def example_tree_def)
  have run: "map f_id (files (deleteFile ''d'' example_tree)) = [''c'']"
    by (simp add: example_tree_def deleteFile_def idsToDelete_def Let_def)
  have again: "deleteFile ''c'' (deleteFile ''d'' example_tree) = deleteFile ''d'' example_tree"
    by (simp add: example_tree_def deleteFile_def idsToDelete_def Let_def)
  have none: "deleteFile ''z'' example_tree = example_tree"
    by (simp add: example_tree_def deleteFile_def)
  have "deleteFile ''d'' example_tree \<noteq> example_tree"
    using run by (auto simp: example_tree_def)
  then have "filter (\<lambda>f. f_id f \<notin> subtree_ids (files example_tree) ''d'') (files example_tree) =
     files (deleteFile ''d'' example_tree)"
    using deleteFile_cascade [OF v] by (auto split: if_splits)
  then show ?thesis using v run again none by simp
qed

text \<open>
  C6 as stated fails on a file list in which a file that is not a folder has a child: the
  collection goes down through folders only. Deleting the folder \<open>d\<close> takes \<open>d\<close> and \<open>a\<close>;
  \<open>b\<close>, a descendant of \<open>d\<close>, is left, and its \<^verbatim>\<open>parentId\<close> is the deleted \<open>a\<close>.
\<close>

theorem deleteFile_counterexample:
  "''b'' \<in> subtree_ids (files nested_tree) ''d'' \<and>
   map f_id (files (deleteFile ''d'' nested_tree)) = [''b'', ''c''] \<and>
   map f_parentId (files (deleteFile ''d'' nested_tree)) = [Some ''a'', None] \<and>
   ''a'' \<in> f_id ` set (files nested_tree) - f_id ` set (files (deleteFile ''d'' nested_tree))"
proof -
  have e1: "(''b'', ''a'') \<in> parent_edges (files nested_tree)"
    by (force simp: parent_edges_def nested_tree_def)
  have e2: "(''a'', ''d'') \<in> parent_edges (files nested_tree)"
    by (force simp: parent_edges_def nested_tree_def)
  have s: "''b'' \<in> subtree_ids (files nested_tree) ''d''"
    using e1 e2 by (auto simp: subtree_ids_def)
  have run: "files (deleteFile ''d'' nested_tree) = drop 2 (files nested_tree)"
    by (simp add: nested_tree_def deleteFile_def idsToDelete_def Let_def)
  show ?thesis using s unfolding run by (simp add: nested_tree_def)
qed

section \<open>The tree invariant under add and move\<close>

lemma acyclic_no_edges: "acyclic {}"
  by (simp add: acyclic_def)

lemma parent_edges_Nil: "parent_edges [] = {}"
  by (simp add: parent_edges_def)

lemma parent_edges_Cons:
  "parent_edges (f # fs) =
     (case f_parentId f of None \<Rightarrow> {} | Some p \<Rightarrow> {(f_id f, p)}) \<union> parent_edges fs"
  by (auto simp: parent_edges_def split: option.splits)

lemma parent_edges_append: "parent_edges (fs @ gs) = parent_edges fs \<union> parent_edges gs"
  by (auto simp: parent_edges_def)

lemma range_parent_edges:
  "(x, y) \<in> (parent_edges fs)\<^sup>+ \<Longrightarrow> parents_are_folders fs \<Longrightarrow>
   \<exists>g \<in> set fs. f_id g = y \<and> f_type g = Folder"
  by (induction rule: trancl.induct) (auto simp: parent_edges_def parents_are_folders_def)

lemma valid_add:
  assumes v: "valid_tree fs" and fresh: "newId \<notin> f_id ` set fs"
    and par: "folder_or_root fs (f_parentId file)"
  shows "valid_tree (fs @ [file\<lparr>f_id := newId\<rparr>])"
proof -
  from v have d: "distinct (map f_id fs)" and paf: "parents_are_folders fs"
    and ac: "acyclic (parent_edges fs)" by (auto simp: valid_tree_def)
  have d': "distinct (map f_id (fs @ [file\<lparr>f_id := newId\<rparr>]))" using d fresh by auto
  have paf': "parents_are_folders (fs @ [file\<lparr>f_id := newId\<rparr>])"
    using paf par unfolding parents_are_folders_def folder_or_root_def
    by (auto split: option.splits)
  have ac': "acyclic (parent_edges (fs @ [file\<lparr>f_id := newId\<rparr>]))"
  proof (cases "f_parentId file")
    case None
    then show ?thesis using ac by (simp add: parent_edges_append parent_edges_Cons parent_edges_Nil)
  next
    case (Some p)
    then obtain g where g: "g \<in> set fs" "f_id g = p" using par by (auto simp: folder_or_root_def)
    have "p \<noteq> newId" using g fresh by auto
    moreover have "(p, newId) \<notin> (parent_edges fs)\<^sup>+"
      using range_parent_edges [OF _ paf] fresh by blast
    ultimately have "(p, newId) \<notin> (parent_edges fs)\<^sup>*" by (auto simp: rtrancl_eq_or_trancl)
    then have "acyclic (insert (newId, p) (parent_edges fs))" using ac by (simp add: acyclic_insert)
    then show ?thesis using Some
      by (simp add: parent_edges_append parent_edges_Cons parent_edges_Nil)
  qed
  show ?thesis using d' paf' ac' by (simp add: valid_tree_def)
qed

lemma map_reparent_ids:
  "map f_id (map (\<lambda>f. if f_id f = i then f\<lparr>f_parentId := parentId\<rparr> else f) fs) = map f_id fs"
  by (induction fs) auto

lemma valid_move:
  assumes v: "valid_tree (files state)" and ne: "parentId \<noteq> Some []"
  shows "valid_tree (files (moveFile i parentId state))"
proof (cases "moveFile i parentId state = state")
  case True
  then show ?thesis using v by simp
next
  case False
  let ?fs = "files state"
  let ?upd = "\<lambda>f. if f_id f = i then f\<lparr>f_parentId := parentId\<rparr> else f"
  from v have d: "distinct (map f_id ?fs)" and paf: "parents_are_folders ?fs"
    and ac: "acyclic (parent_edges ?fs)" by (auto simp: valid_tree_def)
  from False obtain target where t: "find (\<lambda>f. f_id f = i) ?fs = Some target"
    "f_type target \<noteq> Folder"
    by (auto simp: moveFile_def split: option.splits if_splits)
  have tin: "target \<in> set ?fs" "f_id target = i" using t(1) by (auto simp: find_Some_iff)
  from False t have fs': "files (moveFile i parentId state) = map ?upd ?fs"
    by (auto simp: moveFile_def split: option.splits if_splits)
  from False t ne have par: "folder_or_root ?fs parentId"
    by (auto simp: moveFile_def folder_or_root_def find_Some_iff split: option.splits if_splits)
  have ids: "map f_id (map ?upd ?fs) = map f_id ?fs" by (rule map_reparent_ids)
  have d': "distinct (map f_id (map ?upd ?fs))" unfolding ids by (rule d)
  have keep: "\<exists>g' \<in> set (map ?upd ?fs). f_id g' = f_id g \<and> f_type g' = f_type g"
    if "g \<in> set ?fs" for g
    using that by (intro bexI [of _ "?upd g"]) auto
  have paf': "parents_are_folders (map ?upd ?fs)"
    unfolding parents_are_folders_def
  proof (intro ballI allI impI)
    fix f p assume f: "f \<in> set (map ?upd ?fs)" and p: "f_parentId f = Some p"
    from f obtain f0 where f0: "f0 \<in> set ?fs" "f = ?upd f0" by auto
    have "\<exists>g \<in> set ?fs. f_id g = p \<and> f_type g = Folder"
    proof (cases "f_id f0 = i")
      case True
      then show ?thesis using f0 p par by (auto simp: folder_or_root_def)
    next
      case False
      then show ?thesis using f0 p paf by (auto simp: parents_are_folders_def)
    qed
    then obtain g where g: "g \<in> set ?fs" "f_id g = p" "f_type g = Folder" by blast
    from keep [OF g(1)] obtain g' where "g' \<in> set (map ?upd ?fs)" "f_id g' = f_id g"
      "f_type g' = f_type g" by blast
    then show "\<exists>g \<in> set (map ?upd ?fs). f_id g = p \<and> f_type g = Folder"
      using g by (intro bexI [of _ g']) simp_all
  qed
  have noparent: "(x, i) \<notin> (parent_edges ?fs)\<^sup>+" for x
  proof
    assume "(x, i) \<in> (parent_edges ?fs)\<^sup>+"
    then obtain g where g: "g \<in> set ?fs" "f_id g = i" "f_type g = Folder"
      using range_parent_edges [OF _ paf] by blast
    then have "g = target" using d tin by (intro distinct_ids_eq [of ?fs]) auto
    then show False using g t by simp
  qed
  have sub: "parent_edges (map ?upd ?fs) \<subseteq>
      (case parentId of None \<Rightarrow> {} | Some p \<Rightarrow> {(i, p)}) \<union> parent_edges ?fs"
    by (auto simp: parent_edges_def split: option.splits if_splits)
  have "acyclic ((case parentId of None \<Rightarrow> {} | Some p \<Rightarrow> {(i, p)}) \<union> parent_edges ?fs)"
  proof (cases parentId)
    case None
    then show ?thesis using ac by simp
  next
    case (Some p)
    then obtain g where g: "g \<in> set ?fs" "f_id g = p" "f_type g = Folder"
      using par by (auto simp: folder_or_root_def)
    have "p \<noteq> i"
    proof
      assume "p = i"
      then have "g = target" using d tin g by (intro distinct_ids_eq [of ?fs]) auto
      then show False using g t by simp
    qed
    then have "(p, i) \<notin> (parent_edges ?fs)\<^sup>*" using noparent by (auto simp: rtrancl_eq_or_trancl)
    then show ?thesis using ac Some by (simp add: acyclic_insert)
  qed
  then have ac': "acyclic (parent_edges (map ?upd ?fs))" using sub by (rule acyclic_subset)
  show ?thesis unfolding valid_tree_def fs' by (intro conjI d' paf' ac')
qed

lemma valid_op:
  "valid_tree (files state) \<Longrightarrow> op_checked (files state) op \<Longrightarrow>
   valid_tree (files (applyTreeOp op state))"
proof (cases op)
  case (AddFile newId newFile)
  assume "valid_tree (files state)" "op_checked (files state) op"
  then show ?thesis using AddFile valid_add [of "files state" newId newFile]
    by (simp add: addFile_def)
next
  case (AddFolder newId name parentId)
  assume "valid_tree (files state)" "op_checked (files state) op"
  then show ?thesis using AddFolder
      valid_add [of "files state" newId
        "\<lparr>f_id = newId, f_name = (if trim name \<noteq> [] then trim name else defaultFolderName),
          f_type = Folder, f_parentId = parentId, f_content = None, f_dataUrl = None\<rparr>"]
    by (simp add: addFolder_def)
next
  case (MoveFile i parentId)
  assume "valid_tree (files state)" "op_checked (files state) op"
  then show ?thesis using MoveFile valid_move [of state parentId i] by simp
qed

text \<open>
  C7 (amended): from a valid tree, every sequence of checked add and move operations (each
  add draws an unused id and names as parent null or an existing folder; no move names
  the empty string) leaves a valid tree: ids stay unique, every non-null \<^verbatim>\<open>parentId\<close> is
  the id of an existing folder, and the parent graph is acyclic, so no node is its own
  ancestor.
\<close>

theorem tree_ops_keep_valid:
  "valid_tree (files state) \<Longrightarrow> ops_checked ops state \<Longrightarrow>
   valid_tree (files (applyTreeOps ops state))"
proof (induction ops arbitrary: state)
  case Nil
  then show ?case by simp
next
  case (Cons op ops)
  then show ?case using valid_op [of state op] by simp
qed

theorem tree_ops_keep_valid_witness:
  "valid_tree (files (createDefaultDocumentState ''abc'')) \<and>
   ops_checked
     [AddFolder ''d'' ''figures'' None, AddFile ''a'' (texFile ''a.tex'' (Some ''d'') ''xyz''),
      MoveFile ''default-tex'' (Some ''d'')]
     (createDefaultDocumentState ''abc'') \<and>
   valid_tree (files (applyTreeOps
     [AddFolder ''d'' ''figures'' None, AddFile ''a'' (texFile ''a.tex'' (Some ''d'') ''xyz''),
      MoveFile ''default-tex'' (Some ''d'')]
     (createDefaultDocumentState ''abc''))) \<and>
   map (\<lambda>f. (f_id f, f_parentId f)) (files (applyTreeOps
     [AddFolder ''d'' ''figures'' None, AddFile ''a'' (texFile ''a.tex'' (Some ''d'') ''xyz''),
      MoveFile ''default-tex'' (Some ''d'')]
     (createDefaultDocumentState ''abc''))) =
   [(''default-tex'', Some ''d''), (''d'', None), (''a'', Some ''d'')]"
proof -
  have v: "valid_tree (files (createDefaultDocumentState ''abc''))"
    by (simp add: createDefaultDocumentState_def valid_tree_def parents_are_folders_def
        parent_edges_Cons parent_edges_Nil acyclic_no_edges)
  have c: "ops_checked
     [AddFolder ''d'' ''figures'' None, AddFile ''a'' (texFile ''a.tex'' (Some ''d'') ''xyz''),
      MoveFile ''default-tex'' (Some ''d'')]
     (createDefaultDocumentState ''abc'')"
    by (simp add: createDefaultDocumentState_def addFolder_def addFile_def moveFile_def
        texFile_def folder_or_root_def)
  have r: "map (\<lambda>f. (f_id f, f_parentId f)) (files (applyTreeOps
     [AddFolder ''d'' ''figures'' None, AddFile ''a'' (texFile ''a.tex'' (Some ''d'') ''xyz''),
      MoveFile ''default-tex'' (Some ''d'')]
     (createDefaultDocumentState ''abc''))) =
   [(''default-tex'', Some ''d''), (''d'', None), (''a'', Some ''d'')]"
    by (simp add: createDefaultDocumentState_def addFolder_def addFile_def moveFile_def
        texFile_def)
  show ?thesis using v c r tree_ops_keep_valid [OF v c] by simp
qed

text \<open>
  C7 as stated fails, since the adds take any parent: adding a file under the default
  document, a folder under that file and then moving the default document into the folder
  makes the default document its own ancestor; and after the first add alone a \<^verbatim>\<open>parentId\<close>
  names a file that is not a folder.
\<close>

theorem tree_ops_counterexample:
  "valid_tree (files (createDefaultDocumentState ''abc'')) \<and>
   (''default-tex'', ''default-tex'') \<in>
     (parent_edges (files (applyTreeOps
        [AddFile ''a'' (texFile ''a.tex'' (Some ''default-tex'') ''xyz''),
         AddFolder ''b'' ''figures'' (Some ''a''),
         MoveFile ''default-tex'' (Some ''b'')]
        (createDefaultDocumentState ''abc''))))\<^sup>+ \<and>
   \<not> parents_are_folders (files (applyTreeOps
        [AddFile ''a'' (texFile ''a.tex'' (Some ''default-tex'') ''xyz'')]
        (createDefaultDocumentState ''abc'')))"
proof -
  have v: "valid_tree (files (createDefaultDocumentState ''abc''))"
    by (simp add: createDefaultDocumentState_def valid_tree_def parents_are_folders_def
        parent_edges_Cons parent_edges_Nil acyclic_no_edges)
  have e: "parent_edges (files (applyTreeOps
        [AddFile ''a'' (texFile ''a.tex'' (Some ''default-tex'') ''xyz''),
         AddFolder ''b'' ''figures'' (Some ''a''),
         MoveFile ''default-tex'' (Some ''b'')]
        (createDefaultDocumentState ''abc''))) =
     {(''b'', ''a''), (''a'', ''default-tex''), (''default-tex'', ''b'')}"
    by (simp add: createDefaultDocumentState_def addFolder_def addFile_def moveFile_def
        texFile_def parent_edges_Cons parent_edges_Nil)
  have cyc: "(''default-tex'', ''default-tex'') \<in>
     {(''b'', ''a''), (''a'', ''default-tex''), (''default-tex'', ''b'')}\<^sup>+"
    by (rule trancl.intros(2) [of _ "''a''"], rule trancl.intros(2) [of _ "''b''"],
        rule trancl.intros(1)) simp_all
  have p: "\<not> parents_are_folders (files (applyTreeOps
        [AddFile ''a'' (texFile ''a.tex'' (Some ''default-tex'') ''xyz'')]
        (createDefaultDocumentState ''abc'')))"
    by (simp add: createDefaultDocumentState_def addFile_def texFile_def
        parents_are_folders_def)
  show ?thesis using v cyc p unfolding e by simp
qed

section \<open>Buffer primitives: cursor and selection\<close>

lemma content_contentOf:
  "getActiveFile state = Some activeFile \<Longrightarrow> content state = contentOf activeFile"
  by (simp add: content_def contentOf_def)

lemma find_withContent:
  "find (\<lambda>f. f_id f = i) (withContent a c fs) =
     map_option (\<lambda>f. if f_id f = a then f\<lparr>f_content := Some c\<rparr> else f) (find (\<lambda>f. f_id f = i) fs)"
  by (induction fs) (auto simp: withContent_def)

lemma find_nonfolder_withContent:
  "find (\<lambda>f. f_type f \<noteq> Folder) (withContent a c fs) =
     map_option (\<lambda>f. if f_id f = a then f\<lparr>f_content := Some c\<rparr> else f)
       (find (\<lambda>f. f_type f \<noteq> Folder) fs)"
  by (induction fs) (auto simp: withContent_def)

lemma getActiveFile_withContent:
  assumes "getActiveFile state = Some activeFile"
    and "files state' = withContent (f_id activeFile) c (files state)"
    and "activeFileId state' = activeFileId state"
  shows "getActiveFile state' = Some (activeFile\<lparr>f_content := Some c\<rparr>)"
proof -
  let ?u = "\<lambda>f. if f_id f = f_id activeFile then f\<lparr>f_content := Some c\<rparr> else f"
  have "getActiveFile state' = map_option ?u (getActiveFile state)"
    unfolding getActiveFile_def assms(2,3) find_withContent find_nonfolder_withContent
    by (cases "find (\<lambda>f. f_id f = activeFileId state) (files state)") simp_all
  then show ?thesis using assms(1) by simp
qed

lemma content_withContent:
  assumes "getActiveFile state = Some activeFile"
    and "files state' = withContent (f_id activeFile) c (files state)"
    and "activeFileId state' = activeFileId state"
  shows "content state' = c"
  using getActiveFile_withContent [OF assms] by (simp add: content_def)

lemma insertAtCursor_effect:
  assumes "getActiveFile state = Some activeFile" and "f_type activeFile = Tex"
  shows "cursorPosition (insertAtCursor text state) = cursorPosition state + length text \<and>
         content (insertAtCursor text state) =
           take (cursorPosition state) (content state) @ text @
           drop (cursorPosition state) (content state) \<and>
         selectionRange (insertAtCursor text state) = selectionRange state"
proof -
  have c: "content state = contentOf activeFile" using assms(1) by (rule content_contentOf)
  have "content (insertAtCursor text state) =
      take (cursorPosition state) (content state) @ text @
      drop (cursorPosition state) (content state)"
    using assms
    by (intro content_withContent [OF assms(1)])
       (simp_all add: insertAtCursor_def c js_slice_def js_slice_from_def)
  moreover have "cursorPosition (insertAtCursor text state) = cursorPosition state + length text"
    and "selectionRange (insertAtCursor text state) = selectionRange state"
    using assms by (simp_all add: insertAtCursor_def Let_def)
  ultimately show ?thesis by simp
qed

lemma replaceSelection_effect:
  assumes "getActiveFile state = Some activeFile" and "f_type activeFile = Tex"
  shows "cursorPosition (replaceSelection start end text state) = start + length text \<and>
         content (replaceSelection start end text state) =
           take start (content state) @ text @ drop end (content state) \<and>
         selectionRange (replaceSelection start end text state) = selectionRange state"
proof -
  have c: "content state = contentOf activeFile" using assms(1) by (rule content_contentOf)
  have "content (replaceSelection start end text state) =
      take start (content state) @ text @ drop end (content state)"
    using assms
    by (intro content_withContent [OF assms(1)])
       (simp_all add: replaceSelection_def c js_slice_def js_slice_from_def)
  moreover have "cursorPosition (replaceSelection start end text state) = start + length text"
    and "selectionRange (replaceSelection start end text state) = selectionRange state"
    using assms by (simp_all add: replaceSelection_def Let_def)
  ultimately show ?thesis by simp
qed

text \<open>
  C9 (amended): on an active text file, \<^verbatim>\<open>insertAtCursor(text)\<close> inserts at the cursor and
  \<^verbatim>\<open>replaceSelection(start, end, text)\<close> replaces the range; each sets the cursor to the
  insertion point plus the length of the text, which is right after the inserted text
  whenever the insertion point lies within the content; each leaves \<^verbatim>\<open>selectionRange\<close> as
  it was.
\<close>

theorem buffer_primitives_cursor:
  assumes "getActiveFile state = Some activeFile" and "f_type activeFile = Tex"
  shows "cursorPosition (insertAtCursor text state) = cursorPosition state + length text \<and>
         content (insertAtCursor text state) =
           take (cursorPosition state) (content state) @ text @
           drop (cursorPosition state) (content state) \<and>
         (cursorPosition state \<le> length (content state) \<longrightarrow>
            js_slice (content (insertAtCursor text state)) (cursorPosition state)
              (cursorPosition (insertAtCursor text state)) = text) \<and>
         selectionRange (insertAtCursor text state) = selectionRange state \<and>
         cursorPosition (replaceSelection start end text state) = start + length text \<and>
         content (replaceSelection start end text state) =
           take start (content state) @ text @ drop end (content state) \<and>
         (start \<le> length (content state) \<longrightarrow>
            js_slice (content (replaceSelection start end text state)) start
              (cursorPosition (replaceSelection start end text state)) = text) \<and>
         selectionRange (replaceSelection start end text state) = selectionRange state"
  using insertAtCursor_effect [OF assms, of "text"]
    replaceSelection_effect [OF assms, of start "end" "text"]
  by (simp add: js_slice_def)

theorem buffer_primitives_cursor_witness:
  "cursorPosition (insertAtCursor ''new '' (example_tree\<lparr>cursorPosition := 5\<rparr>)) = 9 \<and>
   content (insertAtCursor ''new '' (example_tree\<lparr>cursorPosition := 5\<rparr>)) = ''text new of a'' \<and>
   cursorPosition (replaceSelection 0 4 ''note'' (example_tree\<lparr>cursorPosition := 5\<rparr>)) = 4 \<and>
   content (replaceSelection 0 4 ''note'' (example_tree\<lparr>cursorPosition := 5\<rparr>)) = ''note of a''"
proof -
  have a: "getActiveFile (example_tree\<lparr>cursorPosition := 5\<rparr>) =
      Some \<lparr>f_id = ''a'', f_name = ''a.tex'', f_type = Tex, f_parentId = Some ''d'',
        f_content = Some ''text of a'', f_dataUrl = None\<rparr>"
    by (simp add: example_tree_def getActiveFile_def)
  have c: "content (example_tree\<lparr>cursorPosition := 5\<rparr>) = ''text of a''"
    by (simp add: content_def a)
  have p: "cursorPosition (example_tree\<lparr>cursorPosition := 5\<rparr>) = 5" by simp
  show ?thesis
    using buffer_primitives_cursor [OF a, of "''new ''" 0 4]
      buffer_primitives_cursor [OF a, of "''note''" 0 4]
    unfolding c p by simp
qed

text \<open>
  C9 as stated fails in its last part: neither primitive writes \<^verbatim>\<open>selectionRange\<close>, so a
  selection that was set before the call is still set after it.
\<close>

theorem buffer_primitives_selection_counterexample:
  "selectionRange (replaceSelection 0 4 ''note'' (example_tree\<lparr>selectionRange := Some (0, 4)\<rparr>))
     = Some (0, 4) \<and>
   selectionRange (insertAtCursor ''new '' (example_tree\<lparr>selectionRange := Some (0, 4)\<rparr>))
     = Some (0, 4) \<and>
   getActiveFile (example_tree\<lparr>selectionRange := Some (0, 4)\<rparr>) =
     Some \<lparr>f_id = ''a'', f_name = ''a.tex'', f_type = Tex, f_parentId = Some ''d'',
        f_content = Some ''text of a'', f_dataUrl = None\<rparr>"
  by (simp add: example_tree_def getActiveFile_def replaceSelection_def insertAtCursor_def
      Let_def)

section \<open>Find and replace: the two tiers\<close>

lemma occurs_at_0: "occurs_at needle s 0 = prefix needle s"
  by (auto simp: occurs_at_def prefix_def take_all_iff dest: arg_cong [where f = length])
     (metis append_eq_conv_conj append_take_drop_id)

lemma occurs_at_Suc: "occurs_at needle (c # cs) (Suc i) = occurs_at needle cs i"
  by (simp add: occurs_at_def)

lemma indexOf_Some: "indexOf s needle = Some i \<Longrightarrow> first_occurrence needle s i"
proof (induction s arbitrary: i)
  case Nil
  then show ?case by (auto simp: first_occurrence_def occurs_at_def split: if_splits)
next
  case (Cons c cs)
  show ?case
  proof (cases "prefix needle (c # cs)")
    case True
    then show ?thesis using Cons.prems by (simp add: first_occurrence_def occurs_at_0)
  next
    case False
    then obtain k where k: "indexOf cs needle = Some k" "i = Suc k"
      using Cons.prems by auto
    then have "first_occurrence needle cs k" using Cons.IH by simp
    then show ?thesis using False k
      by (auto simp: first_occurrence_def occurs_at_Suc less_Suc_eq_0_disj occurs_at_0)
  qed
qed

lemma indexOf_None: "indexOf s needle = None \<Longrightarrow> \<not> occurs_at needle s i"
proof (induction s arbitrary: i)
  case Nil
  then show ?case by (auto simp: occurs_at_def split: if_splits)
next
  case (Cons c cs)
  then show ?case
    by (cases i) (auto simp: occurs_at_0 occurs_at_Suc split: if_splits)
qed

lemma getSubstitution_verbatim:
  "\<not> dollar_pattern replacement \<Longrightarrow>
   getSubstitution matched pre post replacement = replacement"
  by (induction matched pre post replacement rule: getSubstitution.induct) auto

lemma takeWhile_prefix_spaces:
  "k \<le> length (takeWhile is_space s) \<Longrightarrow> \<forall>c \<in> set (take k s). is_space c"
proof -
  assume k: "k \<le> length (takeWhile is_space s)"
  have "take k s = take k (takeWhile is_space s)"
    using k by (metis takeWhile_dropWhile_id take_append diff_is_0_eq' take_0 append_Nil2)
  then have "set (take k s) \<subseteq> set (takeWhile is_space s)" by (simp add: set_take_subset)
  then show ?thesis by (auto dest: set_takeWhileD)
qed

lemma match_sound:
  "matchTokens ts s = Some n \<longrightarrow> ts \<noteq> [] \<longrightarrow> n \<le> length s \<and> pattern_match ts (take n s)"
  and "(matchSpaces ts s k = Some n \<longrightarrow> ts \<noteq> [] \<longrightarrow> k \<le> length (takeWhile is_space s) \<longrightarrow>
        (\<exists>j m. 0 < j \<and> j \<le> k \<and> n = j + m \<and> j + m \<le> length s \<and>
           pattern_match ts (take m (drop j s))))"
proof (induction ts s and ts s k arbitrary: n and n rule: matchTokens_matchSpaces.induct)
  case (1 s)
  then show ?case by simp
next
  case (2 t s)
  then show ?case
    by (auto simp: prefix_def intro: pattern_match.last_token)
next
  case (3 t u ts s)
  show ?case
  proof (intro conjI impI)
    assume m: "matchTokens (t # u # ts) s = Some n"
    then have pre: "prefix t s" by (auto split: if_splits)
    then obtain r where r: "s = t @ r" by (auto simp: prefix_def)
    from m pre obtain n' where n': "matchSpaces (u # ts) (drop (length t) s)
        (length (takeWhile is_space (drop (length t) s))) = Some n'" "n = length t + n'"
      by auto
    from "3.IH" [OF pre, rule_format, OF n'(1)] obtain j m' where jm: "0 < j"
      "j \<le> length (takeWhile is_space (drop (length t) s))" "n' = j + m'"
      "j + m' \<le> length (drop (length t) s)"
      "pattern_match (u # ts) (take m' (drop j (drop (length t) s)))"
      by blast
    have sp: "\<forall>c \<in> set (take j r). is_space c"
      using jm(2) r by (intro takeWhile_prefix_spaces) simp
    have jr: "j \<le> length r" using jm(4) r by simp
    have ne: "take j r \<noteq> []" using jm(1) jr by auto
    have "take n s = t @ take j r @ take m' (drop j r)"
      using r n'(2) jm(3) by (simp add: take_add)
    moreover have "pattern_match (t # u # ts) (t @ take j r @ take m' (drop j r))"
      using ne sp jm(5) r by (intro pattern_match.token_spaces) simp_all
    ultimately show "pattern_match (t # u # ts) (take n s)" by simp
    show "n \<le> length s" using r n'(2) jm(3,4) by simp
  qed
next
  case (4 ts s)
  then show ?case by simp
next
  case (5 ts s k)
  show ?case
  proof (intro impI)
    assume m: "matchSpaces ts s (Suc k) = Some n" and ne: "ts \<noteq> []"
      and k: "Suc k \<le> length (takeWhile is_space s)"
    show "\<exists>j m. 0 < j \<and> j \<le> Suc k \<and> n = j + m \<and> j + m \<le> length s \<and>
           pattern_match ts (take m (drop j s))"
    proof (cases "matchTokens ts (drop (Suc k) s)")
      case None
      then have mk: "matchSpaces ts s k = Some n" using m by simp
      from "5.IH"(2) [OF None, rule_format, OF mk ne Suc_leD [OF k]]
      obtain j m where "0 < j" "j \<le> k" "n = j + m" "j + m \<le> length s"
          "pattern_match ts (take m (drop j s))"
        by blast
      then show ?thesis by (intro exI [of _ j] exI [of _ m]) simp
    next
      case (Some m)
      then have n: "n = Suc k + m" using m by simp
      have "m \<le> length (drop (Suc k) s) \<and> pattern_match ts (take m (drop (Suc k) s))"
        using "5.IH"(1) [of m] Some ne by simp
      moreover have "Suc k \<le> length s"
        using k length_takeWhile_le [of is_space s] by simp
      ultimately show ?thesis using n by (intro exI [of _ "Suc k"] exI [of _ m]) auto
    qed
  qed
qed

lemma matchSpaces_complete:
  "0 < j \<Longrightarrow> j \<le> k \<Longrightarrow> matchTokens ts (drop j s) \<noteq> None \<Longrightarrow> matchSpaces ts s k \<noteq> None"
proof (induction k)
  case 0
  then show ?case by simp
next
  case (Suc k)
  show ?case
  proof (cases "j = Suc k")
    case True
    then show ?thesis using Suc.prems by auto
  next
    case False
    then have "matchSpaces ts s k \<noteq> None" using Suc by simp
    then show ?thesis by (auto split: option.splits)
  qed
qed

lemma match_complete:
  "pattern_match ts m \<Longrightarrow> prefix m s \<Longrightarrow> matchTokens ts s \<noteq> None"
proof (induction arbitrary: s rule: pattern_match.induct)
  case (last_token t)
  then show ?case by simp
next
  case (token_spaces w u ts m t)
  from token_spaces.prems obtain rest where s: "s = t @ w @ m @ rest"
    by (auto simp: prefix_def)
  let ?r = "drop (length t) s"
  have r: "?r = w @ m @ rest" using s by simp
  have "takeWhile is_space ?r = w @ takeWhile is_space (m @ rest)"
    unfolding r using token_spaces.hyps(2) by (simp add: takeWhile_append2)
  then have le: "length w \<le> length (takeWhile is_space ?r)" by simp
  have "matchTokens (u # ts) (drop (length w) ?r) \<noteq> None"
    unfolding r using token_spaces.IH [of "m @ rest"] by simp
  then have "matchSpaces (u # ts) ?r (length (takeWhile is_space ?r)) \<noteq> None"
    using token_spaces.hyps(1) le by (intro matchSpaces_complete [of "length w"]) simp_all
  then show ?case using s by auto
qed

lemma regexSearch_Some:
  "regexSearch ts s = Some (i, n) \<Longrightarrow>
   i \<le> length s \<and> matchTokens ts (drop i s) = Some n \<and> (\<forall>j<i. matchTokens ts (drop j s) = None)"
proof (induction s arbitrary: i)
  case Nil
  then show ?case by auto
next
  case (Cons c cs)
  show ?case
  proof (cases "matchTokens ts (c # cs)")
    case (Some k)
    then show ?thesis using Cons.prems by simp
  next
    case None
    then obtain i' where i': "regexSearch ts cs = Some (i', n)" "i = Suc i'"
      using Cons.prems by auto
    from Cons.IH [OF i'(1)] show ?thesis using None i'(2)
      by (auto simp: less_Suc_eq_0_disj)
  qed
qed

lemma regexSearch_None:
  "regexSearch ts s = None \<Longrightarrow> j \<le> length s \<Longrightarrow> matchTokens ts (drop j s) = None"
proof (induction s arbitrary: j)
  case Nil
  then show ?case by simp
next
  case (Cons c cs)
  then show ?case by (cases j) (auto split: option.splits)
qed

lemma pattern_at_matchTokens:
  "pattern_at ts s j n \<Longrightarrow> matchTokens ts (drop j s) \<noteq> None"
  unfolding pattern_at_def
  by (intro match_complete [of ts "take n (drop j s)"]) (auto simp: take_is_prefix)

lemma regexSearch_leftmost:
  assumes "regexSearch ts s = Some (i, n)" and "ts \<noteq> []"
  shows "pattern_at ts s i n \<and> (\<forall>j<i. \<forall>k. \<not> pattern_at ts s j k)"
proof -
  from regexSearch_Some [OF assms(1)] have i: "i \<le> length s"
    and m: "matchTokens ts (drop i s) = Some n"
    and l: "\<forall>j<i. matchTokens ts (drop j s) = None" by auto
  from match_sound(1) [of ts "drop i s" n] m assms(2)
  have "n \<le> length (drop i s)" "pattern_match ts (take n (drop i s))" by auto
  then have "pattern_at ts s i n" using i by (simp add: pattern_at_def)
  moreover have "\<not> pattern_at ts s j k" if "j < i" for j k
    using pattern_at_matchTokens [of ts s j k] l that by auto
  ultimately show ?thesis by blast
qed

lemma regexSearch_none:
  assumes "regexSearch ts s = None"
  shows "\<not> pattern_at ts s j k"
proof
  assume p: "pattern_at ts s j k"
  then have "j \<le> length s" by (simp add: pattern_at_def)
  then have "matchTokens ts (drop j s) = None" using assms by (intro regexSearch_None)
  then show False using pattern_at_matchTokens [OF p] by simp
qed

lemma first_occurrence_unique:
  "first_occurrence needle s i \<Longrightarrow> first_occurrence needle s j \<Longrightarrow> i = j"
  unfolding first_occurrence_def by (meson linorder_neqE_nat)

lemma findAndReplace_not_applicable:
  "findStr = [] \<or> \<not> activeTex state \<Longrightarrow> findAndReplace findStr replaceStr state = (False, state)"
  by (auto simp: findAndReplace_def activeTex_def split: option.splits)


lemma findAndReplace_literal:
  assumes af: "getActiveFile state = Some activeFile" "f_type activeFile = Tex"
    and ne: "findStr \<noteq> []"
    and occ: "first_occurrence findStr (content state) i"
  shows "fst (findAndReplace findStr replaceStr state) \<and>
         content (snd (findAndReplace findStr replaceStr state)) =
           replaceString (content state) findStr replaceStr \<and>
         (\<not> dollar_pattern replaceStr \<longrightarrow>
            replaceString (content state) findStr replaceStr =
              take i (content state) @ replaceStr @ drop (i + length findStr) (content state))"
proof -
  have c: "contentOf activeFile = content state" using af(1) by (simp add: content_contentOf)
  from occ have "indexOf (content state) findStr \<noteq> None"
    using indexOf_None [of "content state" findStr i] by (auto simp: first_occurrence_def)
  then obtain i0 where i0: "indexOf (content state) findStr = Some i0" by auto
  then have "i0 = i" using indexOf_Some occ first_occurrence_unique by blast
  then have ix: "indexOf (content state) findStr = Some i" using i0 by simp
  have res: "findAndReplace findStr replaceStr state =
      (True, state\<lparr>files := withContent (f_id activeFile)
         (replaceString (content state) findStr replaceStr) (files state)\<rparr>)"
    using af ne ix by (simp add: findAndReplace_def js_includes_def c)
  have "content (snd (findAndReplace findStr replaceStr state)) =
      replaceString (content state) findStr replaceStr"
    unfolding res by (intro content_withContent [OF af(1)]) simp_all
  moreover have "\<not> dollar_pattern replaceStr \<longrightarrow>
      replaceString (content state) findStr replaceStr =
        take i (content state) @ replaceStr @ drop (i + length findStr) (content state)"
    by (simp add: replaceString_def ix getSubstitution_verbatim)
  ultimately show ?thesis using res by simp
qed

lemma findAndReplace_fuzzy:
  assumes af: "getActiveFile state = Some activeFile" "f_type activeFile = Tex"
    and ne: "findStr \<noteq> []"
    and nocc: "\<forall>i. \<not> occurs_at findStr (content state) i"
    and big: "16 \<le> length (trim findStr)" "3 \<le> length (split_ws (trim findStr))"
    and pat: "pattern_at (split_ws (trim findStr)) (content state) i0 n0"
  shows "fst (findAndReplace findStr replaceStr state) \<and>
         (\<exists>i n. pattern_at (split_ws (trim findStr)) (content state) i n \<and>
            (\<forall>j<i. \<forall>k. \<not> pattern_at (split_ws (trim findStr)) (content state) j k) \<and>
            content (snd (findAndReplace findStr replaceStr state)) =
              take i (content state) @ replaceStr @ drop (i + n) (content state))"
proof -
  let ?ts = "split_ws (trim findStr)"
  have c: "contentOf activeFile = content state" using af(1) by (simp add: content_contentOf)
  have ix: "indexOf (content state) findStr = None"
  proof (cases "indexOf (content state) findStr")
    case (Some i)
    then show ?thesis using indexOf_Some [of "content state" findStr i] nocc
      by (simp add: first_occurrence_def)
  qed simp
  have tsne: "?ts \<noteq> []" using big(2) by auto
  have "regexSearch ?ts (content state) \<noteq> None"
  proof
    assume "regexSearch ?ts (content state) = None"
    then show False using regexSearch_none [of ?ts "content state" i0 n0] pat by simp
  qed
  then obtain i n where s: "regexSearch ?ts (content state) = Some (i, n)"
    by (cases "regexSearch ?ts (content state)") auto
  have res: "findAndReplace findStr replaceStr state =
      (True, state\<lparr>files := withContent (f_id activeFile)
         (take i (content state) @ replaceStr @ drop (i + n) (content state)) (files state)\<rparr>)"
    using af ne ix big s by (simp add: findAndReplace_def js_includes_def c)
  have "content (snd (findAndReplace findStr replaceStr state)) =
      take i (content state) @ replaceStr @ drop (i + n) (content state)"
    unfolding res by (intro content_withContent [OF af(1)]) simp_all
  then show ?thesis using res regexSearch_leftmost [OF s tsne] by auto
qed

lemma findAndReplace_no_match:
  assumes nocc: "\<forall>i. \<not> occurs_at findStr (content state) i"
    and nofuzzy: "\<not> (16 \<le> length (trim findStr) \<and> 3 \<le> length (split_ws (trim findStr)) \<and>
      (\<exists>i n. pattern_at (split_ws (trim findStr)) (content state) i n))"
  shows "findAndReplace findStr replaceStr state = (False, state)"
proof (cases "findStr = [] \<or> \<not> activeTex state")
  case True
  then show ?thesis by (rule findAndReplace_not_applicable)
next
  case False
  then obtain activeFile where af: "getActiveFile state = Some activeFile"
      "f_type activeFile = Tex" and ne: "findStr \<noteq> []"
    by (auto simp: activeTex_def)
  let ?ts = "split_ws (trim findStr)"
  have c: "contentOf activeFile = content state" using af(1) by (simp add: content_contentOf)
  have ix: "indexOf (content state) findStr = None"
  proof (cases "indexOf (content state) findStr")
    case (Some i)
    then show ?thesis using indexOf_Some [of "content state" findStr i] nocc
      by (simp add: first_occurrence_def)
  qed simp
  show ?thesis
  proof (cases "16 \<le> length (trim findStr) \<and> 3 \<le> length ?ts")
    case False
    then show ?thesis using af ne ix
      by (auto simp: findAndReplace_def js_includes_def c Let_def)
  next
    case True
    then have tsne: "?ts \<noteq> []" by auto
    have "regexSearch ?ts (content state) = None"
    proof (cases "regexSearch ?ts (content state)")
      case (Some p)
      obtain i n where "p = (i, n)" by (cases p)
      then show ?thesis using regexSearch_leftmost [OF _ tsne, of "content state" i n] Some
          nofuzzy True by auto
    qed simp
    then show ?thesis using af ne ix True
      by (simp add: findAndReplace_def js_includes_def c Let_def)
  qed
qed

text \<open>
  C4 (amended): \<^verbatim>\<open>findAndReplace\<close> returns false and changes nothing for an empty needle or
  when the active file is not a text file. Otherwise: when the needle occurs in the
  content, it returns true, and for a replacement in which no dollar sign is followed at
  once by a dollar sign, an ampersand, a backquote or a quote (so for \<^verbatim>\<open>$x$\<close>) the content
  becomes the content with the first occurrence replaced; when the needle does not occur,
  its trimmed length is at least 16, it splits into at least 3 tokens and the pattern of
  the tokens occurs, it returns true and a leftmost occurrence of the pattern is replaced
  by the replacement as it is; in every other case it returns false and changes nothing.
\<close>

theorem findAndReplace_tiers:
  "(findStr = [] \<or> \<not> activeTex state \<longrightarrow>
      findAndReplace findStr replaceStr state = (False, state)) \<and>
   (findStr \<noteq> [] \<and> activeTex state \<longrightarrow>
      (\<forall>i. first_occurrence findStr (content state) i \<longrightarrow>
         fst (findAndReplace findStr replaceStr state) \<and>
         (\<not> dollar_pattern replaceStr \<longrightarrow>
            content (snd (findAndReplace findStr replaceStr state)) =
              take i (content state) @ replaceStr @ drop (i + length findStr) (content state))) \<and>
      ((\<forall>i. \<not> occurs_at findStr (content state) i) \<and>
       16 \<le> length (trim findStr) \<and> 3 \<le> length (split_ws (trim findStr)) \<and>
       (\<exists>i n. pattern_at (split_ws (trim findStr)) (content state) i n) \<longrightarrow>
         fst (findAndReplace findStr replaceStr state) \<and>
         (\<exists>i n. pattern_at (split_ws (trim findStr)) (content state) i n \<and>
            (\<forall>j<i. \<forall>k. \<not> pattern_at (split_ws (trim findStr)) (content state) j k) \<and>
            content (snd (findAndReplace findStr replaceStr state)) =
              take i (content state) @ replaceStr @ drop (i + n) (content state)))) \<and>
   ((\<forall>i. \<not> occurs_at findStr (content state) i) \<and>
    \<not> (16 \<le> length (trim findStr) \<and> 3 \<le> length (split_ws (trim findStr)) \<and>
       (\<exists>i n. pattern_at (split_ws (trim findStr)) (content state) i n)) \<longrightarrow>
      findAndReplace findStr replaceStr state = (False, state))"
proof (intro conjI impI allI)
  assume "findStr = [] \<or> \<not> activeTex state"
  then show "findAndReplace findStr replaceStr state = (False, state)"
    by (rule findAndReplace_not_applicable)
next
  fix i
  assume a: "findStr \<noteq> [] \<and> activeTex state" and o: "first_occurrence findStr (content state) i"
  then obtain activeFile where af: "getActiveFile state = Some activeFile"
      "f_type activeFile = Tex" by (auto simp: activeTex_def)
  from findAndReplace_literal [OF af _ o, of replaceStr] a
  show "fst (findAndReplace findStr replaceStr state)" by simp
  assume "\<not> dollar_pattern replaceStr"
  with findAndReplace_literal [OF af _ o, of replaceStr] a
  show "content (snd (findAndReplace findStr replaceStr state)) =
      take i (content state) @ replaceStr @ drop (i + length findStr) (content state)" by simp
next
  assume a: "findStr \<noteq> [] \<and> activeTex state"
    and b: "(\<forall>i. \<not> occurs_at findStr (content state) i) \<and>
       16 \<le> length (trim findStr) \<and> 3 \<le> length (split_ws (trim findStr)) \<and>
       (\<exists>i n. pattern_at (split_ws (trim findStr)) (content state) i n)"
  then obtain activeFile where af: "getActiveFile state = Some activeFile"
      "f_type activeFile = Tex" by (auto simp: activeTex_def)
  from b obtain i0 n0 where p: "pattern_at (split_ws (trim findStr)) (content state) i0 n0"
    by blast
  from findAndReplace_fuzzy [OF af _ _ _ _ p, of replaceStr] a b
  show "fst (findAndReplace findStr replaceStr state)"
    and "\<exists>i n. pattern_at (split_ws (trim findStr)) (content state) i n \<and>
            (\<forall>j<i. \<forall>k. \<not> pattern_at (split_ws (trim findStr)) (content state) j k) \<and>
            content (snd (findAndReplace findStr replaceStr state)) =
              take i (content state) @ replaceStr @ drop (i + n) (content state)"
    by simp_all
next
  assume "(\<forall>i. \<not> occurs_at findStr (content state) i) \<and>
    \<not> (16 \<le> length (trim findStr) \<and> 3 \<le> length (split_ws (trim findStr)) \<and>
       (\<exists>i n. pattern_at (split_ws (trim findStr)) (content state) i n))"
  then show "findAndReplace findStr replaceStr state = (False, state)"
    by (intro findAndReplace_no_match) auto
qed

theorem findAndReplace_tiers_witness:
  "findAndReplace [] ''x'' example_tree = (False, example_tree) \<and>
   first_occurrence ''of'' (content example_tree) 5 \<and>
   fst (findAndReplace ''of'' ''at'' example_tree) \<and>
   content (snd (findAndReplace ''of'' ''at'' example_tree)) = ''text at a'' \<and>
   content (snd (findAndReplace ''of'' ''$x$'' example_tree)) = ''text $x$ a'' \<and>
   split_ws (trim '' the quick brown fox'') = [''the'', ''quick'', ''brown'', ''fox''] \<and>
   pattern_at [''the'', ''quick'', ''brown'', ''fox''] (content fuzzy_example) 4 22 \<and>
   fst (findAndReplace '' the quick brown fox'' ''a cat'' fuzzy_example) \<and>
   (\<exists>i n. pattern_at [''the'', ''quick'', ''brown'', ''fox''] (content fuzzy_example) i n \<and>
      content (snd (findAndReplace '' the quick brown fox'' ''a cat'' fuzzy_example)) =
        take i (content fuzzy_example) @ ''a cat'' @ drop (i + n) (content fuzzy_example)) \<and>
   content (snd (findAndReplace '' the quick brown fox'' ''a cat'' fuzzy_example)) =
     ''see a cat run'' \<and>
   findAndReplace ''zebra'' ''x'' example_tree = (False, example_tree)"
proof -
  have c: "content example_tree = ''text of a''"
    by (simp add: content_def getActiveFile_def example_tree_def)
  have cf: "content fuzzy_example = ''see the  quick brown   fox run''"
    by (simp add: content_def getActiveFile_def fuzzy_example_def
        createDefaultDocumentState_def)
  have at: "activeTex example_tree"
    by (simp add: activeTex_def getActiveFile_def example_tree_def)
  have atf: "activeTex fuzzy_example"
    by (simp add: activeTex_def getActiveFile_def fuzzy_example_def
        createDefaultDocumentState_def)
  have fo: "first_occurrence ''of'' (content example_tree) 5"
    unfolding c by (rule indexOf_Some) simp
  have ts: "split_ws (trim '' the quick brown fox'') = [''the'', ''quick'', ''brown'', ''fox'']"
    by (simp add: trim_def split_ws.simps is_space_def)
  have len: "16 \<le> length (trim '' the quick brown fox'')"
    by (simp add: trim_def is_space_def)
  have nocc: "\<forall>i. \<not> occurs_at '' the quick brown fox'' (content fuzzy_example) i"
    unfolding cf by (intro allI indexOf_None) simp
  have pat: "pattern_at [''the'', ''quick'', ''brown'', ''fox''] (content fuzzy_example) 4 22"
    unfolding cf
    using regexSearch_leftmost [of "[''the'', ''quick'', ''brown'', ''fox'']"
        "''see the  quick brown   fox run''" 4 22]
    by (simp add: is_space_def)
  have nz: "\<forall>i. \<not> occurs_at ''zebra'' (content example_tree) i"
    unfolding c by (intro allI indexOf_None) simp
  have sz: "\<not> 16 \<le> length (trim ''zebra'')" by (simp add: trim_def is_space_def)
  have run: "content (snd (findAndReplace '' the quick brown fox'' ''a cat'' fuzzy_example)) =
     ''see a cat run''"
    by (simp add: findAndReplace_def fuzzy_example_def createDefaultDocumentState_def
      getActiveFile_def contentOf_def js_includes_def trim_def is_space_def split_ws.simps
      withContent_def Let_def content_def)
  note A = findAndReplace_tiers [of "[]" example_tree "''x''"]
  note B = findAndReplace_tiers [of "''of''" example_tree "''at''"]
  note B' = findAndReplace_tiers [of "''of''" example_tree "''$x$''"]
  note C = findAndReplace_tiers [of "'' the quick brown fox''" fuzzy_example "''a cat''"]
  note D = findAndReplace_tiers [of "''zebra''" example_tree "''x''"]
  have a: "findAndReplace [] ''x'' example_tree = (False, example_tree)" using A by simp
  have b: "fst (findAndReplace ''of'' ''at'' example_tree) \<and>
     content (snd (findAndReplace ''of'' ''at'' example_tree)) = ''text at a''"
    using B at fo by (simp add: c)
  have b': "content (snd (findAndReplace ''of'' ''$x$'' example_tree)) = ''text $x$ a''"
    using B' at fo by (simp add: c)
  have "fst (findAndReplace '' the quick brown fox'' ''a cat'' fuzzy_example) \<and>
     (\<exists>i n. pattern_at [''the'', ''quick'', ''brown'', ''fox''] (content fuzzy_example) i n \<and>
      (\<forall>j<i. \<forall>k. \<not> pattern_at [''the'', ''quick'', ''brown'', ''fox'']
         (content fuzzy_example) j k) \<and>
      content (snd (findAndReplace '' the quick brown fox'' ''a cat'' fuzzy_example)) =
        take i (content fuzzy_example) @ ''a cat'' @ drop (i + n) (content fuzzy_example))"
    using C atf nocc len pat unfolding ts by (simp (no_asm_use)) blast
  then have cc: "fst (findAndReplace '' the quick brown fox'' ''a cat'' fuzzy_example) \<and>
     (\<exists>i n. pattern_at [''the'', ''quick'', ''brown'', ''fox''] (content fuzzy_example) i n \<and>
      content (snd (findAndReplace '' the quick brown fox'' ''a cat'' fuzzy_example)) =
        take i (content fuzzy_example) @ ''a cat'' @ drop (i + n) (content fuzzy_example))"
    by blast
  have d: "findAndReplace ''zebra'' ''x'' example_tree = (False, example_tree)"
    using D nz sz by blast
  show ?thesis using a fo b b' ts pat cc run d by blast
qed

text \<open>
  C4 as stated fails for the empty needle, which occurs in every content and is refused,
  and for a replacement with \<^verbatim>\<open>$$\<close>, which the first tier expands to a single dollar sign.
\<close>

theorem findAndReplace_counterexample:
  "occurs_at [] (content example_tree) 0 \<and>
   findAndReplace [] ''x'' example_tree = (False, example_tree) \<and>
   first_occurrence ''text'' (content example_tree) 0 \<and>
   take 0 (content example_tree) @ ''$$'' @ drop (0 + length ''text'') (content example_tree) =
     ''$$ of a'' \<and>
   content (snd (findAndReplace ''text'' ''$$'' example_tree)) = ''$ of a''"
proof -
  have c: "content example_tree = ''text of a''"
    by (simp add: content_def getActiveFile_def example_tree_def)
  have fo: "first_occurrence ''text'' (content example_tree) 0"
    unfolding c by (rule indexOf_Some) simp
  have run: "content (snd (findAndReplace ''text'' ''$$'' example_tree)) = ''$ of a''"
    by (simp add: findAndReplace_def example_tree_def getActiveFile_def contentOf_def
        js_includes_def replaceString_def withContent_def content_def)
  have e: "findAndReplace [] ''x'' example_tree = (False, example_tree)"
    by (simp add: findAndReplace_def example_tree_def getActiveFile_def)
  show ?thesis using fo run e by (simp add: c occurs_at_def)
qed

section \<open>Applying a preview\<close>



























section \<open>Validating a transform request\<close>

lemma trim_nonblank: "c \<in> set s \<Longrightarrow> \<not> is_space c \<Longrightarrow> trim s \<noteq> []"
proof
  assume c: "c \<in> set s" "\<not> is_space c" and t: "trim s = []"
  from t have "\<forall>x \<in> set (dropWhile is_space s). is_space x"
    by (simp add: trim_def dropWhile_eq_Nil_conv)
  moreover have "\<forall>x \<in> set (takeWhile is_space s). is_space x" by (auto dest: set_takeWhileD)
  moreover have "set s = set (takeWhile is_space s) \<union> set (dropWhile is_space s)"
    by (metis set_append takeWhile_dropWhile_id)
  ultimately show False using c by auto
qed

text \<open>
  C5 (amended): with no provider or model to use, the request ends with the no-provider
  toast. Otherwise, a source text that is blank after trimming ends the request silently:
  no toast, no request, no preview; a source text that is not blank and longer than 4000
  characters ends it with the too-long toast, no request and no preview; a source text
  that is not blank and of at most 4000 characters (so one of exactly 4000) passes: the
  preview is created in the loading state and the request is sent.
\<close>

theorem runTransform_validation:
  "(resolveModel e mode = None \<longrightarrow>
      runTransform mode targetLang options e = e\<lparr>toasts := toasts e @ [NoProviderError]\<rparr>) \<and>
   (resolveModel e mode \<noteq> None \<and> trim (sourceText e options) = [] \<longrightarrow>
      toasts (runTransform mode targetLang options e) = toasts e \<and>
      requests (runTransform mode targetLang options e) = requests e \<and>
      preview (runTransform mode targetLang options e) = preview e \<and>
      isWorking (runTransform mode targetLang options e) = isWorking e \<and>
      store (runTransform mode targetLang options e) = store e) \<and>
   (resolveModel e mode \<noteq> None \<and> trim (sourceText e options) \<noteq> [] \<and>
    4000 < length (sourceText e options) \<longrightarrow>
      toasts (runTransform mode targetLang options e) = toasts e @ [TextTooLongError] \<and>
      requests (runTransform mode targetLang options e) = requests e \<and>
      preview (runTransform mode targetLang options e) = preview e \<and>
      isWorking (runTransform mode targetLang options e) = isWorking e \<and>
      store (runTransform mode targetLang options e) = store e) \<and>
   (resolveModel e mode \<noteq> None \<and> trim (sourceText e options) \<noteq> [] \<and>
    length (sourceText e options) \<le> 4000 \<longrightarrow>
      toasts (runTransform mode targetLang options e) = toasts e \<and>
      (\<exists>call. requests (runTransform mode targetLang options e) = requests e @ [call] \<and>
         c_text call = orElse (o_text options) (sourceText e options)) \<and>
      (\<exists>p. preview (runTransform mode targetLang options e) = Some p \<and>
         p_status p = Loading \<and> p_original p = sourceText e options \<and> p_next p = []) \<and>
      isWorking (runTransform mode targetLang options e))"
  by (cases "capturedRange e options")
     (auto simp: runTransform_def sourceText_def split: option.splits prod.splits)

lemma length_text_of_length: "length (text_of_length n) = n"
  by (simp add: text_of_length_def)

lemma trim_text_of_length: "0 < n \<Longrightarrow> trim (text_of_length n) \<noteq> []"
  by (rule trim_nonblank [of "CHR ''a''"]) (simp_all add: text_of_length_def is_space_def)

lemma sourceText_range_options: "sourceText e (range_options original) = original"
  by (simp add: sourceText_def capturedRange_def range_options_def no_options_def)

lemma resolveModel_editor_on: "resolveModel (editor_on text v p) mode \<noteq> None"
  by (simp add: resolveModel_def editor_on_def)

theorem runTransform_validation_witness:
  "toasts (runTransform Polish None (range_options (text_of_length 4001)) (editor_on ''doc'' None None))
     = [TextTooLongError] \<and>
   requests (runTransform Polish None (range_options (text_of_length 4001))
     (editor_on ''doc'' None None)) = [] \<and>
   preview (runTransform Polish None (range_options (text_of_length 4001))
     (editor_on ''doc'' None None)) = None \<and>
   toasts (runTransform Polish None (range_options (text_of_length 4000)) (editor_on ''doc'' None None))
     = [] \<and>
   (\<exists>call. requests (runTransform Polish None (range_options (text_of_length 4000))
       (editor_on ''doc'' None None)) = [call] \<and> c_text call = text_of_length 4000) \<and>
   (\<exists>p. preview (runTransform Polish None (range_options (text_of_length 4000))
       (editor_on ''doc'' None None)) = Some p \<and> p_status p = Loading \<and>
       p_original p = text_of_length 4000 \<and> p_next p = []) \<and>
   requests (runTransform Polish None (range_options ''   '') (editor_on ''doc'' None None)) = [] \<and>
   preview (runTransform Polish None (range_options ''   '') (editor_on ''doc'' None None)) = None \<and>
   runTransform Polish None (range_options ''abc'') ((editor_on ''doc'' None None)\<lparr>providers := []\<rparr>)
     = (editor_on ''doc'' None None)\<lparr>providers := [], toasts := [NoProviderError]\<rparr>"
proof -
  let ?e = "editor_on ''doc'' None None"
  have e: "toasts ?e = []" "requests ?e = []" "preview ?e = None"
    by (simp_all add: editor_on_def)
  have b: "trim ''   '' = []" by (simp add: trim_def is_space_def)
  have n: "resolveModel (?e\<lparr>providers := []\<rparr>) Polish = None"
    by (simp add: resolveModel_def editor_on_def)
  have o: "orElse (o_text (range_options (text_of_length 4000))) (text_of_length 4000)
      = text_of_length 4000"
    by (simp add: orElse_def range_options_def no_options_def)
  show ?thesis
    using runTransform_validation [of ?e Polish None "range_options (text_of_length 4001)"]
      runTransform_validation [of ?e Polish None "range_options (text_of_length 4000)"]
      runTransform_validation [of ?e Polish None "range_options ''   ''"]
      runTransform_validation [of "?e\<lparr>providers := []\<rparr>" Polish None "range_options ''abc''"]
      trim_text_of_length [of 4001] trim_text_of_length [of 4000] n b
    unfolding sourceText_range_options length_text_of_length o
    by (simp add: resolveModel_editor_on e)
qed

text \<open>
  C5 as stated fails for a blank source text, which raises no error at all, and for a
  text of 4001 characters when no provider is available, where the error is the
  no-provider one.
\<close>

theorem runTransform_validation_counterexample:
  "resolveModel (editor_on ''doc'' None None) Polish \<noteq> None \<and>
   trim (sourceText (editor_on ''doc'' None None) (range_options ''   '')) = [] \<and>
   toasts (runTransform Polish None (range_options ''   '') (editor_on ''doc'' None None)) = [] \<and>
   4000 < length (sourceText ((editor_on ''doc'' None None)\<lparr>providers := []\<rparr>)
     (range_options (text_of_length 4001))) \<and>
   toasts (runTransform Polish None (range_options (text_of_length 4001))
     ((editor_on ''doc'' None None)\<lparr>providers := []\<rparr>)) = [NoProviderError]"
proof -
  have n: "resolveModel ((editor_on ''doc'' None None)\<lparr>providers := []\<rparr>) Polish = None"
    by (simp add: resolveModel_def editor_on_def)
  have b: "trim ''   '' = []" by (simp add: trim_def is_space_def)
  have r: "resolveModel (editor_on ''doc'' None None) Polish =
     Some (\<lparr>pr_id = ''openai'', pr_name = ''OpenAI'', pr_baseUrl = ''https://api.openai.com/v1'',
          pr_apiKey = [], pr_models = [\<lparr>m_id = ''openai:gpt-4o'', m_modelName = ''gpt-4o''\<rparr>]\<rparr>,
        \<lparr>m_id = ''openai:gpt-4o'', m_modelName = ''gpt-4o''\<rparr>)"
    by (simp add: resolveModel_def editor_on_def)
  have c: "capturedRange (editor_on ''doc'' None None) (range_options ''   '') = (0, 3, ''   '')"
    by (simp add: capturedRange_def range_options_def no_options_def)
  have t: "toasts (runTransform Polish None (range_options ''   '') (editor_on ''doc'' None None)) = []"
    by (simp add: runTransform_def r c b) (simp add: editor_on_def)
  have t2: "toasts (runTransform Polish None (range_options (text_of_length 4001))
     ((editor_on ''doc'' None None)\<lparr>providers := []\<rparr>)) = [NoProviderError]"
    by (simp add: runTransform_def n) (simp add: editor_on_def)
  show ?thesis
    using t t2 b by (simp add: resolveModel_editor_on sourceText_range_options length_text_of_length)
qed

end
